theory Spec2Isabelle
  imports Complex_Main "HOL-Library.Char_ord" "HOL-Library.List_Lexorder"
    "HOL-Library.Monad_Syntax"
begin

section \<open>The data model of \<^verbatim>\<open>clean_data\<close> (src/app.py, lines 71-109)\<close>

text \<open>
  \<^verbatim>\<open>clean_data\<close> works on a pandas DataFrame. The model keeps what the function reads
  and writes: the row index, the ordered named columns, the dtype of every column and its
  cells. A column is a tagged union, one constructor per dtype, so that a cell can only
  hold what its dtype can hold:
  \<^item> \<open>Int64Col\<close>: integers; the dtype has no missing marker;
  \<^item> \<open>Float64Col\<close>: floats, \<open>None\<close> is NaN (pandas' missing marker of the dtype);
  \<^item> \<open>BoolCol\<close>: booleans, no missing marker;
  \<^item> \<open>ObjectCol\<close>: the textual dtype \<^verbatim>\<open>object\<close>, strings, \<open>None\<close> is the missing cell;
  \<^item> \<open>DatetimeCol\<close>: \<^verbatim>\<open>datetime64[ns]\<close>, nanoseconds since the epoch, \<open>None\<close> is NaT.

  Columns of other dtypes (timedelta, category, the nullable extension types) and object
  columns that hold anything but strings are outside the model.

  A float is a rational or one of the two infinities. Finite arithmetic is exact in the
  model (no rounding, no overflow); the sum of \<open>+inf\<close> and \<open>-inf\<close> is NaN, as in IEEE 754.
\<close>

datatype float64 = Fin rat | PInf | NInf

datatype column =
    Int64Col "int list"
  | Float64Col "float64 option list"
  | BoolCol "bool list"
  | ObjectCol "string option list"
  | DatetimeCol "int option list"

record table =
  index :: "int list"
  columns :: "(string \<times> column) list"

text \<open>The cells of a column in one type, for comparing rows.\<close>

datatype cell = NA | IntV int | FloatV float64 | BoolV bool | StrV string | TimeV int

fun cells :: "column \<Rightarrow> cell list" where
  "cells (Int64Col xs) = map IntV xs"
| "cells (Float64Col xs) = map (\<lambda>x. case x of None \<Rightarrow> NA | Some v \<Rightarrow> FloatV v) xs"
| "cells (BoolCol xs) = map BoolV xs"
| "cells (ObjectCol xs) = map (\<lambda>x. case x of None \<Rightarrow> NA | Some v \<Rightarrow> StrV v) xs"
| "cells (DatetimeCol xs) = map (\<lambda>x. case x of None \<Rightarrow> NA | Some v \<Rightarrow> TimeV v) xs"

definition col_len :: "column \<Rightarrow> nat" where
  "col_len c = length (cells c)"

text \<open>
  A well-formed table: every column has one cell per index entry and the column names are
  unique. A DataFrame cannot have columns of different lengths, and
  \<^verbatim>\<open>pd.read_csv\<close> and \<^verbatim>\<open>pd.read_json\<close> deliver unique names; the record type
  also has values that are not DataFrames, and the theorems about rows assume
  \<open>wf_table\<close>.
\<close>

definition wf_table :: "table \<Rightarrow> bool" where
  "wf_table t = (list_all (\<lambda>nc. col_len (snd nc) = length (index t)) (columns t)
                 \<and> distinct (map fst (columns t)))"

text \<open>\<^verbatim>\<open>df.empty\<close>: some axis has length zero.\<close>

definition empty_df :: "table \<Rightarrow> bool" where
  "empty_df t = (index t = [] \<or> columns t = [])"

text \<open>The rows of a table, row \<open>i\<close> holding cell \<open>i\<close> of every column.\<close>

definition row_at :: "table \<Rightarrow> nat \<Rightarrow> cell list" where
  "row_at t i = map (\<lambda>nc. cells (snd nc) ! i) (columns t)"

definition rows :: "table \<Rightarrow> cell list list" where
  "rows t = map (row_at t) [0..<length (index t)]"

section \<open>Column classification (lines 76-77)\<close>

text \<open>
  \<^verbatim>\<open>select_dtypes(include=[np.number])\<close> keeps the integer and float columns,
  \<^verbatim>\<open>select_dtypes(exclude=[np.number])\<close> the others. Only the dtype is looked at.
\<close>

fun is_number :: "column \<Rightarrow> bool" where
  "is_number (Int64Col _) = True"
| "is_number (Float64Col _) = True"
| "is_number _ = False"

definition numeric_cols :: "table \<Rightarrow> string list" where
  "numeric_cols t = map fst (filter (\<lambda>nc. is_number (snd nc)) (columns t))"

definition categorical_cols :: "table \<Rightarrow> string list" where
  "categorical_cols t = map fst (filter (\<lambda>nc. \<not> is_number (snd nc)) (columns t))"

section \<open>Missing values, mean and mode\<close>

fun isna :: "column \<Rightarrow> bool list" where
  "isna (Int64Col xs) = map (\<lambda>_. False) xs"
| "isna (Float64Col xs) = map (\<lambda>x. x = None) xs"
| "isna (BoolCol xs) = map (\<lambda>_. False) xs"
| "isna (ObjectCol xs) = map (\<lambda>x. x = None) xs"
| "isna (DatetimeCol xs) = map (\<lambda>x. x = None) xs"

text \<open>\<^verbatim>\<open>s.isna().any()\<close> and its counterpart "some cell is present".\<close>

definition isna_any :: "column \<Rightarrow> bool" where
  "isna_any c = (True \<in> set (isna c))"

definition notna_any :: "column \<Rightarrow> bool" where
  "notna_any c = (False \<in> set (isna c))"

text \<open>\<^verbatim>\<open>fillna(v)\<close>: every missing cell becomes \<open>v\<close>; \<open>v\<close> may itself be NaN.\<close>

definition fillna :: "'a option \<Rightarrow> 'a option list \<Rightarrow> 'a option list" where
  "fillna v xs = map (\<lambda>x. case x of None \<Rightarrow> v | Some y \<Rightarrow> Some y) xs"

text \<open>Float addition; \<open>None\<close> is NaN.\<close>

fun fadd :: "float64 \<Rightarrow> float64 \<Rightarrow> float64 option" where
  "fadd (Fin a) (Fin b) = Some (Fin (a + b))"
| "fadd PInf NInf = None"
| "fadd NInf PInf = None"
| "fadd PInf _ = Some PInf"
| "fadd _ PInf = Some PInf"
| "fadd NInf _ = Some NInf"
| "fadd _ NInf = Some NInf"

fun fdiv_count :: "float64 \<Rightarrow> nat \<Rightarrow> float64" where
  "fdiv_count (Fin s) n = Fin (s / of_nat n)"
| "fdiv_count PInf n = PInf"
| "fdiv_count NInf n = NInf"

text \<open>
  \<^verbatim>\<open>Series.mean()\<close> with \<^verbatim>\<open>skipna=True\<close> (pandas \<^verbatim>\<open>nanmean\<close>): the missing cells
  count as 0 in the sum, the count is the number of present cells, and the mean is NaN
  when nothing is present.
\<close>

definition nansum :: "float64 option list \<Rightarrow> float64 option" where
  "nansum xs = fold (\<lambda>x acc. case acc of None \<Rightarrow> None
                               | Some a \<Rightarrow> fadd a (case x of None \<Rightarrow> Fin 0 | Some v \<Rightarrow> v))
                    xs (Some (Fin 0))"

definition nanmean :: "float64 option list \<Rightarrow> float64 option" where
  "nanmean xs = (let count = length (filter (\<lambda>x. x \<noteq> None) xs)
                 in if count > 0 then map_option (\<lambda>s. fdiv_count s count) (nansum xs)
                    else None)"

text \<open>
  \<^verbatim>\<open>Series.mode()\<close> with \<^verbatim>\<open>dropna=True\<close>: count the present values (keys in order of
  first appearance), keep the keys whose count is the largest, and sort them ascending.
  The result is empty exactly when no cell is present.
\<close>

definition dropna :: "'a option list \<Rightarrow> 'a list" where
  "dropna xs = map the (filter (\<lambda>x. x \<noteq> None) xs)"

definition unique :: "'a list \<Rightarrow> 'a list" where
  "unique xs = rev (remdups (rev xs))"

definition mode_s :: "('a::linorder) option list \<Rightarrow> 'a list" where
  "mode_s xs = (let vals = dropna xs; keys = unique vals;
                    counts = map (count_list vals) keys
                in if keys = [] then []
                   else sort (filter (\<lambda>k. count_list vals k = Max (set counts)) keys))"

section \<open>Imputation (lines 79-89)\<close>

text \<open>
  \<^verbatim>\<open>s.fillna(s.mean())\<close> on a numeric column. An integer column has no missing cell,
  so only the float case changes anything.
\<close>

fun fillna_mean :: "column \<Rightarrow> column" where
  "fillna_mean (Float64Col xs) = Float64Col (fillna (nanmean xs) xs)"
| "fillna_mean c = c"

definition fill_numeric :: "column \<Rightarrow> column" where
  "fill_numeric c = (if isna_any c then fillna_mean c else c)"

text \<open>
  The body of the second loop: \<^verbatim>\<open>mode_vals = s.mode()\<close>, and
  \<^verbatim>\<open>s.fillna(mode_vals[0])\<close> when \<^verbatim>\<open>mode_vals\<close> is not empty.
\<close>

fun fillna_mode :: "column \<Rightarrow> column" where
  "fillna_mode (ObjectCol xs) =
     (let mode_vals = mode_s xs
      in if mode_vals \<noteq> [] then ObjectCol (fillna (Some (mode_vals ! 0)) xs)
         else ObjectCol xs)"
| "fillna_mode (DatetimeCol xs) =
     (let mode_vals = mode_s xs
      in if mode_vals \<noteq> [] then DatetimeCol (fillna (Some (mode_vals ! 0)) xs)
         else DatetimeCol xs)"
| "fillna_mode c = c"

definition fill_categorical :: "column \<Rightarrow> column" where
  "fill_categorical c = (if isna_any c then fillna_mode c else c)"

text \<open>\<^verbatim>\<open>df[col] = f(df[col])\<close> for a column name of the table.\<close>

definition update_col :: "string \<Rightarrow> (column \<Rightarrow> column) \<Rightarrow> table \<Rightarrow> table" where
  "update_col col f t =
     t\<lparr>columns := map (\<lambda>nc. if fst nc = col then (fst nc, f (snd nc)) else nc) (columns t)\<rparr>"

text \<open>
  The two loops. Both lists of names are computed before either loop runs, as in the
  source.
\<close>

definition impute :: "table \<Rightarrow> table" where
  "impute df =
     (let ncols = numeric_cols df;
          ccols = categorical_cols df;
          df1 = fold (\<lambda>col. update_col col fill_numeric) ncols df;
          df2 = fold (\<lambda>col. update_col col fill_categorical) ccols df1
      in df2)"

section \<open>Duplicate rows (line 92)\<close>

text \<open>
  \<^verbatim>\<open>duplicated(keep='first')\<close> marks a row that equals an earlier one; missing cells
  are equal to each other. \<^verbatim>\<open>drop_duplicates\<close> returns a copy of an empty frame
  (\<^verbatim>\<open>if self.empty: return self.copy()\<close>) and otherwise selects the unmarked rows,
  which keep their index labels. \<^verbatim>\<open>reset_index(drop=True)\<close> relabels the rows
  \<open>0, 1, ...\<close>.
\<close>

fun duplicated_loop :: "'a list \<Rightarrow> 'a list \<Rightarrow> bool list" where
  "duplicated_loop seen [] = []"
| "duplicated_loop seen (r # rs) = (r \<in> set seen) # duplicated_loop (r # seen) rs"

definition duplicated :: "table \<Rightarrow> bool list" where
  "duplicated t = duplicated_loop [] (rows t)"

definition drop_marked :: "bool list \<Rightarrow> 'a list \<Rightarrow> 'a list" where
  "drop_marked m xs = map snd (filter (\<lambda>mx. \<not> fst mx) (zip m xs))"

fun drop_marked_col :: "bool list \<Rightarrow> column \<Rightarrow> column" where
  "drop_marked_col m (Int64Col xs) = Int64Col (drop_marked m xs)"
| "drop_marked_col m (Float64Col xs) = Float64Col (drop_marked m xs)"
| "drop_marked_col m (BoolCol xs) = BoolCol (drop_marked m xs)"
| "drop_marked_col m (ObjectCol xs) = ObjectCol (drop_marked m xs)"
| "drop_marked_col m (DatetimeCol xs) = DatetimeCol (drop_marked m xs)"

definition drop_duplicates :: "table \<Rightarrow> table" where
  "drop_duplicates t =
     (if empty_df t then t
      else (let d = duplicated t
            in \<lparr>index = drop_marked d (index t),
                columns = map (\<lambda>nc. (fst nc, drop_marked_col d (snd nc))) (columns t)\<rparr>))"

definition reset_index :: "table \<Rightarrow> table" where
  "reset_index t = t\<lparr>index := map int [0..<length (index t)]\<rparr>"

section \<open>Dtype coercion (lines 95-107)\<close>

text \<open>
  The two library parsers are parameters of the model.
  \<^item> The numeric parser reads one string: \<open>None\<close> when the string is not a number, an
    integer, or a float (which may be NaN).
  \<^item> \<^verbatim>\<open>pd.to_datetime(s, errors="ignore", infer_datetime_format=True)\<close> is taken
    whole, by the dtype of what it returns: \<^verbatim>\<open>datetime64[ns]\<close> with the parsed
    values, a timezone-aware \<^verbatim>\<open>DatetimeTZDtype\<close>, or \<^verbatim>\<open>object\<close> (the input
    given back because a cell did not parse, or a column of mixed offsets).
\<close>

datatype parsed = PInt int | PFloat "float64 option"

datatype dt_result =
    Naive "int option list"
  | Aware string "int option list"
  | ObjectResult

type_synonym numeric_parser = "string \<Rightarrow> parsed option"
type_synonym datetime_parser = "string option list \<Rightarrow> dt_result"

datatype error = ValueError

text \<open>
  pandas' \<^verbatim>\<open>maybe_convert_numeric\<close>: one pass over the cells filling an integer and a
  float array. A missing cell is NaN in the float array and sets the float flag; a
  string that does not parse raises \<^verbatim>\<open>ValueError\<close>. The result is the flag and the two
  arrays.
\<close>

fun maybe_convert_numeric ::
  "numeric_parser \<Rightarrow> string option list \<Rightarrow> error + (bool \<times> int list \<times> float64 option list)"
where
  "maybe_convert_numeric p [] = Inr (False, [], [])"
| "maybe_convert_numeric p (v # vs) =
     (case v of
        None \<Rightarrow>
          (case maybe_convert_numeric p vs of
             Inl e \<Rightarrow> Inl e
           | Inr (seen_float, ints, floats) \<Rightarrow> Inr (True, 0 # ints, None # floats))
      | Some s \<Rightarrow>
          (case p s of
             None \<Rightarrow> Inl ValueError
           | Some (PInt i) \<Rightarrow>
               (case maybe_convert_numeric p vs of
                  Inl e \<Rightarrow> Inl e
                | Inr (seen_float, ints, floats) \<Rightarrow>
                    Inr (seen_float, i # ints, Some (Fin (of_int i)) # floats))
           | Some (PFloat f) \<Rightarrow>
               (case maybe_convert_numeric p vs of
                  Inl e \<Rightarrow> Inl e
                | Inr (seen_float, ints, floats) \<Rightarrow> Inr (True, 0 # ints, f # floats))))"

text \<open>
  \<^verbatim>\<open>pd.to_numeric(s, errors="ignore")\<close> on an object column: the float array when a
  float or a missing cell was seen, the integer array otherwise (also for no cell at
  all), and the input itself when the conversion raised.
\<close>

definition to_numeric :: "numeric_parser \<Rightarrow> string option list \<Rightarrow> column" where
  "to_numeric p xs =
     (case maybe_convert_numeric p xs of
        Inl e \<Rightarrow> ObjectCol xs
      | Inr (seen_float, ints, floats) \<Rightarrow>
          if seen_float then Float64Col floats else Int64Col ints)"

fun is_object :: "column \<Rightarrow> bool" where
  "is_object (ObjectCol _) = True"
| "is_object _ = False"

text \<open>
  The body of the third loop. A column that is not of dtype object is skipped. The
  numeric result is stored and the loop continues when its dtype is not object;
  otherwise the datetime result is stored unless its dtype is timezone-aware or object.
\<close>

definition coerce_column :: "numeric_parser \<Rightarrow> datetime_parser \<Rightarrow> column \<Rightarrow> column" where
  "coerce_column pn pdt c =
     (case c of
        ObjectCol xs \<Rightarrow>
          (let converted_num = to_numeric pn xs
           in if \<not> is_object converted_num then converted_num
              else (let converted_dt = pdt xs
                    in case converted_dt of
                         Naive ts \<Rightarrow> DatetimeCol ts
                       | Aware tz ts \<Rightarrow> c
                       | ObjectResult \<Rightarrow> c))
      | _ \<Rightarrow> c)"

definition coerce_dtypes :: "numeric_parser \<Rightarrow> datetime_parser \<Rightarrow> table \<Rightarrow> table" where
  "coerce_dtypes pn pdt t =
     fold (\<lambda>col. update_col col (coerce_column pn pdt)) (map fst (columns t)) t"

section \<open>The whole function\<close>

text \<open>
  \<^verbatim>\<open>df.copy()\<close> is the identity on values; the stages follow in the order of the
  source.
\<close>

definition clean_data :: "numeric_parser \<Rightarrow> datetime_parser \<Rightarrow> table \<Rightarrow> table" where
  "clean_data pn pdt df =
     (let df_clean = df;
          df_clean = impute df_clean;
          df_clean = reset_index (drop_duplicates df_clean);
          df_clean = coerce_dtypes pn pdt df_clean
      in df_clean)"

section \<open>The store: frames, buffers and who can write to them\<close>

text \<open>
  The functions above compute with table values. To say what \<^verbatim>\<open>clean_data\<close> does to
  the caller's DataFrame, the same code is modelled once more over an explicit store. A
  DataFrame is an object at an address: its index and, for every column name, the
  address of the buffer that holds the column. The store maps addresses to frames and to
  buffers, and \<open>fresh\<close> is the next unused address.
\<close>

type_synonym addr = nat

record frame =
  frame_index :: "int list"
  frame_cols :: "(string \<times> addr) list"

record store =
  frames :: "addr \<Rightarrow> frame option"
  arrays :: "addr \<Rightarrow> column option"
  fresh :: addr

text \<open>
  Allocation takes the next address. A new frame gets a new buffer for each of its
  columns; \<^verbatim>\<open>df.copy()\<close>, \<^verbatim>\<open>drop_duplicates()\<close> and \<^verbatim>\<open>reset_index(drop=True)\<close>
  each return a new frame.
\<close>

definition alloc_array :: "column \<Rightarrow> store \<Rightarrow> addr \<times> store" where
  "alloc_array c s = (fresh s, s\<lparr>arrays := (arrays s)(fresh s \<mapsto> c), fresh := fresh s + 1\<rparr>)"

fun alloc_arrays :: "(string \<times> column) list \<Rightarrow> store \<Rightarrow> (string \<times> addr) list \<times> store" where
  "alloc_arrays [] s = ([], s)"
| "alloc_arrays (nc # cs) s =
     (case alloc_array (snd nc) s of
        (b, s1) \<Rightarrow> (case alloc_arrays cs s1 of
                     (refs, s2) \<Rightarrow> ((fst nc, b) # refs, s2)))"

definition new_frame :: "table \<Rightarrow> store \<Rightarrow> addr \<times> store" where
  "new_frame t s =
     (case alloc_arrays (columns t) s of
        (refs, s1) \<Rightarrow>
          (fresh s1,
           s1\<lparr>frames := (frames s1)(fresh s1 \<mapsto> \<lparr>frame_index = index t, frame_cols = refs\<rparr>),
              fresh := fresh s1 + 1\<rparr>))"

text \<open>
  Reading the table a frame denotes fails on a dangling address. \<^verbatim>\<open>df[col]\<close> reads
  the buffer of a column (a missing name is the \<^verbatim>\<open>KeyError\<close>); \<^verbatim>\<open>df[col] = v\<close>
  stores \<open>v\<close> in a new buffer and makes the frame at \<open>df\<close> point to it: the frame
  object is mutated in place.
\<close>

definition read_table :: "store \<Rightarrow> addr \<Rightarrow> table option" where
  "read_table s a =
     (case frames s a of
        None \<Rightarrow> None
      | Some f \<Rightarrow>
          (case those (map (\<lambda>nr. map_option (\<lambda>c. (fst nr, c)) (arrays s (snd nr)))
                           (frame_cols f)) of
             None \<Rightarrow> None
           | Some cs \<Rightarrow> Some \<lparr>index = frame_index f, columns = cs\<rparr>))"

definition getitem :: "addr \<Rightarrow> string \<Rightarrow> store \<Rightarrow> column option" where
  "getitem a col s =
     (case frames s a of
        None \<Rightarrow> None
      | Some f \<Rightarrow> (case map_of (frame_cols f) col of None \<Rightarrow> None | Some b \<Rightarrow> arrays s b))"

definition setitem :: "addr \<Rightarrow> string \<Rightarrow> column \<Rightarrow> store \<Rightarrow> store option" where
  "setitem a col v s =
     (case frames s a of
        None \<Rightarrow> None
      | Some f \<Rightarrow>
          (case alloc_array v s of
             (b, s1) \<Rightarrow>
               Some (s1\<lparr>frames := (frames s1)(a \<mapsto>
                      f\<lparr>frame_cols := map (\<lambda>nr. if fst nr = col then (fst nr, b) else nr)
                                          (frame_cols f)\<rparr>)\<rparr>)))"

text \<open>
  The three loop bodies, with the assignments where the source has them, and a loop that
  stops at the first failure.
\<close>

fun for_each :: "('a \<Rightarrow> store \<Rightarrow> store option) \<Rightarrow> 'a list \<Rightarrow> store \<Rightarrow> store option" where
  "for_each body [] s = Some s"
| "for_each body (x # xs) s =
     (case body x s of None \<Rightarrow> None | Some s1 \<Rightarrow> for_each body xs s1)"

fun has_mode :: "column \<Rightarrow> bool" where
  "has_mode (ObjectCol xs) = (mode_s xs \<noteq> [])"
| "has_mode (DatetimeCol xs) = (mode_s xs \<noteq> [])"
| "has_mode (BoolCol xs) = (xs \<noteq> [])"
| "has_mode (Int64Col xs) = (xs \<noteq> [])"
| "has_mode (Float64Col xs) = (dropna xs \<noteq> [])"

definition fill_numeric_st :: "addr \<Rightarrow> string \<Rightarrow> store \<Rightarrow> store option" where
  "fill_numeric_st df col s =
     (case getitem df col s of
        None \<Rightarrow> None
      | Some c \<Rightarrow> if isna_any c then setitem df col (fillna_mean c) s else Some s)"

definition fill_categorical_st :: "addr \<Rightarrow> string \<Rightarrow> store \<Rightarrow> store option" where
  "fill_categorical_st df col s =
     (case getitem df col s of
        None \<Rightarrow> None
      | Some c \<Rightarrow>
          if isna_any c
          then (if has_mode c then setitem df col (fillna_mode c) s else Some s)
          else Some s)"

definition coerce_st ::
  "numeric_parser \<Rightarrow> datetime_parser \<Rightarrow> addr \<Rightarrow> string \<Rightarrow> store \<Rightarrow> store option" where
  "coerce_st pn pdt df col s =
     (case getitem df col s of
        None \<Rightarrow> None
      | Some c \<Rightarrow>
          (case c of
             ObjectCol xs \<Rightarrow>
               (let converted_num = to_numeric pn xs
                in if \<not> is_object converted_num then setitem df col converted_num s
                   else (let converted_dt = pdt xs
                         in case converted_dt of
                              Naive ts \<Rightarrow> setitem df col (DatetimeCol ts) s
                            | Aware tz ts \<Rightarrow> Some s
                            | ObjectResult \<Rightarrow> Some s))
           | _ \<Rightarrow> Some s))"

text \<open>
  \<^verbatim>\<open>clean_data\<close> over the store: it takes the address of the caller's frame and
  returns the address of the result.
\<close>

definition clean_data_st ::
  "numeric_parser \<Rightarrow> datetime_parser \<Rightarrow> addr \<Rightarrow> store \<Rightarrow> (addr \<times> store) option" where
  "clean_data_st pn pdt df s =
     do {
       t \<leftarrow> read_table s df;
       (df_clean, s1) \<leftarrow> Some (new_frame t s);
       t1 \<leftarrow> read_table s1 df_clean;
       s2 \<leftarrow> for_each (fill_numeric_st df_clean) (numeric_cols t1) s1;
       s3 \<leftarrow> for_each (fill_categorical_st df_clean) (categorical_cols t1) s2;
       t3 \<leftarrow> read_table s3 df_clean;
       (deduped, s4) \<leftarrow> Some (new_frame (drop_duplicates t3) s3);
       t4 \<leftarrow> read_table s4 deduped;
       (df_clean, s5) \<leftarrow> Some (new_frame (reset_index t4) s4);
       t5 \<leftarrow> read_table s5 df_clean;
       s6 \<leftarrow> for_each (coerce_st pn pdt df_clean) (map fst (columns t5)) s5;
       Some (df_clean, s6)
     }"

section \<open>Vocabulary of the statements\<close>

text \<open>
  What the two imputation loops do to one column: a column is in exactly one of the two
  lists of names, by its dtype.
\<close>

definition impute_column :: "column \<Rightarrow> column" where
  "impute_column c = (if is_number c then fill_numeric c else fill_categorical c)"



text \<open>
  \<open>least_mode m xs\<close>: \<open>m\<close> is present in \<open>xs\<close>, no present value occurs more often, and
  \<open>m\<close> is the least of the values that occur as often (for strings: in the order of the
  characters' codes).
\<close>

definition least_mode :: "('a::linorder) \<Rightarrow> 'a option list \<Rightarrow> bool" where
  "least_mode m xs =
     (Some m \<in> set xs
      \<and> (\<forall>v. Some v \<in> set xs \<longrightarrow> count_list (dropna xs) v \<le> count_list (dropna xs) m)
      \<and> (\<forall>v. Some v \<in> set xs \<and> count_list (dropna xs) v = count_list (dropna xs) m
             \<longrightarrow> m \<le> v))"

text \<open>
  The tie-break as the specification words it, for comparison with \<open>mode_s\<close>: among the
  distinct present values in order of first appearance, the first one that no other value
  outnumbers.
\<close>

definition first_seen_mode :: "'a option list \<Rightarrow> 'a option" where
  "first_seen_mode xs =
     (let vals = dropna xs; keys = unique vals
      in find (\<lambda>k. list_all (\<lambda>k'. count_list vals k' \<le> count_list vals k) keys) keys)"

text \<open>
  The positions of the rows that are not equal to an earlier row (the first occurrences),
  in increasing order.
\<close>

definition kept_positions :: "'a list \<Rightarrow> nat list" where
  "kept_positions rs = filter (\<lambda>i. rs ! i \<notin> set (take i rs)) [0..<length rs]"

text \<open>
  The outcome of the numeric parse of an object column: every present cell parses; every
  cell is present and parses as an integer; and the cell values the integer and the float
  array receive.
\<close>

definition parses_all :: "numeric_parser \<Rightarrow> string option list \<Rightarrow> bool" where
  "parses_all p xs = list_all (\<lambda>x. case x of None \<Rightarrow> True | Some s \<Rightarrow> p s \<noteq> None) xs"

definition all_integers :: "numeric_parser \<Rightarrow> string option list \<Rightarrow> bool" where
  "all_integers p xs =
     list_all (\<lambda>x. case x of None \<Rightarrow> False
                    | Some s \<Rightarrow> (case p s of Some (PInt i) \<Rightarrow> True | _ \<Rightarrow> False)) xs"

definition integer_cell :: "numeric_parser \<Rightarrow> string option \<Rightarrow> int" where
  "integer_cell p x = (case x of None \<Rightarrow> 0
                       | Some s \<Rightarrow> (case p s of Some (PInt i) \<Rightarrow> i | _ \<Rightarrow> 0))"

definition float_cell :: "numeric_parser \<Rightarrow> string option \<Rightarrow> float64 option" where
  "float_cell p x = (case x of None \<Rightarrow> None
                     | Some s \<Rightarrow> (case p s of None \<Rightarrow> None
                                 | Some (PInt i) \<Rightarrow> Some (Fin (of_int i))
                                 | Some (PFloat f) \<Rightarrow> f))"



text \<open>
  Over the store: in a valid store every frame and every buffer a frame points to lies
  below \<open>fresh\<close>; \<open>untouched n s s'\<close> says that \<open>s'\<close> agrees with \<open>s\<close> at every
  address below \<open>n\<close>; \<open>owns n s a t\<close> says that the frame at \<open>a\<close> denotes the table
  \<open>t\<close> and that the frame and all its buffers lie at or above \<open>n\<close>.
\<close>

definition valid_store :: "store \<Rightarrow> bool" where
  "valid_store s =
     (\<forall>a f. frames s a = Some f \<longrightarrow>
        a < fresh s \<and> list_all (\<lambda>nr. snd nr < fresh s) (frame_cols f))"

definition untouched :: "addr \<Rightarrow> store \<Rightarrow> store \<Rightarrow> bool" where
  "untouched n s s' = (\<forall>a<n. frames s' a = frames s a \<and> arrays s' a = arrays s a)"

definition owns :: "addr \<Rightarrow> store \<Rightarrow> addr \<Rightarrow> table \<Rightarrow> bool" where
  "owns n s a t =
     (n \<le> a \<and> a < fresh s
      \<and> (\<exists>f. frames s a = Some f \<and> frame_index f = index t
             \<and> map fst (frame_cols f) = map fst (columns t)
             \<and> (\<forall>i<length (columns t).
                   n \<le> snd (frame_cols f ! i) \<and> snd (frame_cols f ! i) < fresh s
                   \<and> arrays s (snd (frame_cols f ! i)) = Some (snd (columns t ! i)))))"

subsection \<open>Example parsers\<close>

text \<open>
  Two parsers to run the model on concrete tables; the theorems hold for every parser.
  \<open>decimal_literal\<close> reads the plain decimal literals (an optional minus sign, digits,
  and optionally a point followed by digits): an integer of at most 18 digits without a
  point, a float with one. \<open>to_datetime_iso\<close> reads a column whose present cells all
  have the same one of the ISO 8601 shapes \<^verbatim>\<open>YYYY\<close>, \<^verbatim>\<open>YYYY-MM-DD\<close> and
  \<^verbatim>\<open>YYYY-MM-DDTHH:MM:SSZ\<close> (years 1678 to 2261, days 1 to 28); the last shape
  carries the UTC designator and gives a timezone-aware result. These are inputs that
  pandas' parsers read in the same way; every other input is reported as a failure here.
\<close>

definition digit_of :: "char \<Rightarrow> nat option" where
  "digit_of c = map_of [(CHR ''0'', 0), (CHR ''1'', 1), (CHR ''2'', 2), (CHR ''3'', 3),
                        (CHR ''4'', 4), (CHR ''5'', 5), (CHR ''6'', 6), (CHR ''7'', 7),
                        (CHR ''8'', 8), (CHR ''9'', 9)] c"

fun digits_value :: "nat \<Rightarrow> string \<Rightarrow> nat option" where
  "digits_value acc [] = Some acc"
| "digits_value acc (c # cs) =
     (case digit_of c of None \<Rightarrow> None | Some d \<Rightarrow> digits_value (10 * acc + d) cs)"

definition natural :: "string \<Rightarrow> nat option" where
  "natural s = (if s = [] then None else digits_value 0 s)"

definition unsigned_literal :: "string \<Rightarrow> parsed option" where
  "unsigned_literal s =
     (let ip = takeWhile (\<lambda>c. c \<noteq> CHR ''.'') s; rest = dropWhile (\<lambda>c. c \<noteq> CHR ''.'') s
      in case rest of
           [] \<Rightarrow> if length ip \<le> 18 then map_option (\<lambda>n. PInt (int n)) (natural ip) else None
         | _ # fp \<Rightarrow>
             (case (natural ip, natural fp) of
                (Some a, Some b) \<Rightarrow>
                  Some (PFloat (Some (Fin (of_nat a + of_nat b / 10 ^ length fp))))
              | _ \<Rightarrow> None))"

fun negate :: "parsed \<Rightarrow> parsed" where
  "negate (PInt i) = PInt (- i)"
| "negate (PFloat (Some (Fin q))) = PFloat (Some (Fin (- q)))"
| "negate p = p"

definition decimal_literal :: numeric_parser where
  "decimal_literal s =
     (if s \<noteq> [] \<and> hd s = CHR ''-'' then map_option negate (unsigned_literal (tl s))
      else unsigned_literal s)"

definition days_from_civil :: "int \<Rightarrow> int \<Rightarrow> int \<Rightarrow> int" where
  "days_from_civil y m d =
     (let y' = (if m \<le> 2 then y - 1 else y);
          era = y' div 400;
          yoe = y' - era * 400;
          doy = (153 * (if m > 2 then m - 3 else m + 9) + 2) div 5 + d - 1;
          doe = yoe * 365 + yoe div 4 - yoe div 100 + doy
      in era * 146097 + doe - 719468)"

definition epoch_ns :: "nat \<Rightarrow> nat \<Rightarrow> nat \<Rightarrow> nat \<Rightarrow> nat \<Rightarrow> nat \<Rightarrow> int" where
  "epoch_ns y m d hh mm ss =
     (days_from_civil (int y) (int m) (int d) * 86400 + int hh * 3600 + int mm * 60 + int ss)
       * 1000000000"

definition year_in_range :: "nat \<Rightarrow> bool" where
  "year_in_range y = (1678 \<le> y \<and> y \<le> 2261)"

definition iso_date :: "string \<Rightarrow> (nat \<times> nat \<times> nat) option" where
  "iso_date s =
     (if length s = 10 \<and> s ! 4 = CHR ''-'' \<and> s ! 7 = CHR ''-''
      then (case (natural (take 4 s), natural (take 2 (drop 5 s)), natural (drop 8 s)) of
              (Some y, Some m, Some d) \<Rightarrow>
                if year_in_range y \<and> 1 \<le> m \<and> m \<le> 12 \<and> 1 \<le> d \<and> d \<le> 28
                then Some (y, m, d) else None
            | _ \<Rightarrow> None)
      else None)"

definition iso_time :: "string \<Rightarrow> (nat \<times> nat \<times> nat) option" where
  "iso_time s =
     (if length s = 8 \<and> s ! 2 = CHR '':'' \<and> s ! 5 = CHR '':''
      then (case (natural (take 2 s), natural (take 2 (drop 3 s)), natural (drop 6 s)) of
              (Some hh, Some mm, Some ss) \<Rightarrow>
                if hh < 24 \<and> mm < 60 \<and> ss < 60 then Some (hh, mm, ss) else None
            | _ \<Rightarrow> None)
      else None)"

definition iso_cell :: "string \<Rightarrow> int option" where
  "iso_cell s =
     (if length s = 4
      then (case natural s of
              None \<Rightarrow> None
            | Some y \<Rightarrow> if year_in_range y then Some (epoch_ns y 1 1 0 0 0) else None)
      else if length s = 10
      then map_option (\<lambda>(y, m, d). epoch_ns y m d 0 0 0) (iso_date s)
      else if length s = 20 \<and> s ! 10 = CHR ''T'' \<and> s ! 19 = CHR ''Z''
      then (case (iso_date (take 10 s), iso_time (take 8 (drop 11 s))) of
              (Some (y, m, d), Some (hh, mm, ss)) \<Rightarrow> Some (epoch_ns y m d hh mm ss)
            | _ \<Rightarrow> None)
      else None)"

definition to_datetime_iso :: datetime_parser where
  "to_datetime_iso xs =
     (let strs = dropna xs
      in if strs = [] then Naive (map (\<lambda>_. None) xs)
         else if \<not> list_all (\<lambda>s. length s = length (hd strs)) strs then ObjectResult
         else if \<not> list_all (\<lambda>s. iso_cell s \<noteq> None) strs then ObjectResult
         else (let ts = map (\<lambda>x. case x of None \<Rightarrow> None | Some s \<Rightarrow> iso_cell s) xs
               in if length (hd strs) = 20 then Aware ''UTC'' ts else Naive ts))"

subsection \<open>Example tables\<close>




definition ex_mode :: table where
  "ex_mode = \<lparr>index = [0, 1, 2, 3],
      columns = [(''s'', ObjectCol [Some ''A'', None, Some ''B'', Some ''A''])]\<rparr>"

definition ex_tie :: table where
  "ex_tie = \<lparr>index = [0, 1, 2],
      columns = [(''s'', ObjectCol [Some ''b'', None, Some ''a''])]\<rparr>"

definition ex_nocols :: table where
  "ex_nocols = \<lparr>index = [0, 1], columns = []\<rparr>"

definition ex_dups :: table where
  "ex_dups = \<lparr>index = [10, 11, 12],
      columns = [(''n'', Int64Col [1, 2, 1]),
                 (''s'', ObjectCol [Some ''x'', Some ''y'', Some ''x''])]\<rparr>"

definition ex_empty_text :: table where
  "ex_empty_text = \<lparr>index = [], columns = [(''s'', ObjectCol [])]\<rparr>"




definition ex_utc :: table where
  "ex_utc = \<lparr>index = [0, 1],
      columns = [(''t'', ObjectCol [Some ''2020-01-01T00:00:00Z'', Some ''2021-06-15T12:30:00Z''])]\<rparr>"


text \<open>A store with one frame, at address 2, and its two buffers.\<close>

definition ex_store :: store where
  "ex_store = \<lparr>frames = [2 \<mapsto> \<lparr>frame_index = [0, 1, 2], frame_cols = [(''x'', 0), (''s'', 1)]\<rparr>],
               arrays = [0 \<mapsto> Float64Col [Some (Fin 1), None, Some (Fin 3)],
                         1 \<mapsto> ObjectCol [Some ''a'', None, Some ''a'']],
               fresh = 3\<rparr>"

section \<open>Lemmas on imputation\<close>

lemma index_update_col [simp]: "index (update_col n f t) = index t"
  by (simp add: update_col_def)

lemma names_update_col [simp]: "map fst (columns (update_col n f t)) = map fst (columns t)"
  by (simp add: update_col_def comp_def)

lemma fold_update_col:
  "distinct names \<Longrightarrow>
   fold (\<lambda>col. update_col col f) names t =
     t\<lparr>columns := map (\<lambda>nc. if fst nc \<in> set names then (fst nc, f (snd nc)) else nc) (columns t)\<rparr>"
proof (induction names arbitrary: t)
  case Nil
  then show ?case by simp
next
  case (Cons n ns)
  then have d: "distinct ns" and nn: "n \<notin> set ns" by simp_all
  have "fold (\<lambda>col. update_col col f) (n # ns) t = fold (\<lambda>col. update_col col f) ns (update_col n f t)"
    by simp
  also have "\<dots> = (update_col n f t)\<lparr>columns := map (\<lambda>nc. if fst nc \<in> set ns then (fst nc, f (snd nc)) else nc) (columns (update_col n f t))\<rparr>"
    using Cons.IH [OF d] by simp
  also have "\<dots> = t\<lparr>columns := map (\<lambda>nc. if fst nc \<in> set (n # ns) then (fst nc, f (snd nc)) else nc) (columns t)\<rparr>"
    using nn by (auto simp: update_col_def)
  finally show ?case .
qed

lemma name_in_numeric_cols:
  assumes "distinct (map fst (columns t))" "nc \<in> set (columns t)"
  shows "fst nc \<in> set (numeric_cols t) \<longleftrightarrow> is_number (snd nc)"
proof
  assume "fst nc \<in> set (numeric_cols t)"
  then obtain nc' where a: "nc' \<in> set (columns t)" "is_number (snd nc')" "fst nc' = fst nc"
    by (auto simp: numeric_cols_def)
  with assms have "nc' = nc" by (metis eq_key_imp_eq_value prod.collapse)
  with a show "is_number (snd nc)" by simp
next
  assume "is_number (snd nc)"
  with assms(2) show "fst nc \<in> set (numeric_cols t)"
    by (force simp: numeric_cols_def)
qed

lemma name_in_categorical_cols:
  assumes "distinct (map fst (columns t))" "nc \<in> set (columns t)"
  shows "fst nc \<in> set (categorical_cols t) \<longleftrightarrow> \<not> is_number (snd nc)"
proof
  assume "fst nc \<in> set (categorical_cols t)"
  then obtain nc' where a: "nc' \<in> set (columns t)" "\<not> is_number (snd nc')" "fst nc' = fst nc"
    by (auto simp: categorical_cols_def)
  with assms have "nc' = nc" by (metis eq_key_imp_eq_value prod.collapse)
  with a show "\<not> is_number (snd nc)" by simp
next
  assume "\<not> is_number (snd nc)"
  with assms(2) show "fst nc \<in> set (categorical_cols t)"
    by (force simp: categorical_cols_def)
qed

lemma distinct_numeric_cols: "distinct (map fst (columns t)) \<Longrightarrow> distinct (numeric_cols t)"
  unfolding numeric_cols_def by (rule distinct_map_filter)

lemma distinct_categorical_cols: "distinct (map fst (columns t)) \<Longrightarrow> distinct (categorical_cols t)"
  unfolding categorical_cols_def by (rule distinct_map_filter)

lemma impute_columns:
  assumes d: "distinct (map fst (columns t))"
  shows "impute t = t\<lparr>columns := map (\<lambda>nc. (fst nc, impute_column (snd nc))) (columns t)\<rparr>"
proof -
  have "map ((\<lambda>nc. if fst nc \<in> set (categorical_cols t) then (fst nc, fill_categorical (snd nc)) else nc)
          \<circ> (\<lambda>nc. if fst nc \<in> set (numeric_cols t) then (fst nc, fill_numeric (snd nc)) else nc)) (columns t)
        = map (\<lambda>nc. (fst nc, impute_column (snd nc))) (columns t)"
  proof (rule map_cong [OF refl])
    fix nc assume m: "nc \<in> set (columns t)"
    show "((\<lambda>nc. if fst nc \<in> set (categorical_cols t) then (fst nc, fill_categorical (snd nc)) else nc)
          \<circ> (\<lambda>nc. if fst nc \<in> set (numeric_cols t) then (fst nc, fill_numeric (snd nc)) else nc)) nc
        = (fst nc, impute_column (snd nc))"
      using name_in_numeric_cols [OF d m] name_in_categorical_cols [OF d m]
      by (simp add: impute_column_def)
  qed
  then show ?thesis
    by (simp add: impute_def Let_def fold_update_col distinct_numeric_cols distinct_categorical_cols d)
qed

lemma set_dropna: "set (dropna xs) = {v. Some v \<in> set xs}"
  by (force simp: dropna_def image_iff)

lemma set_unique [simp]: "set (unique xs) = set xs"
  by (simp add: unique_def)

lemma distinct_unique [simp]: "distinct (unique xs)"
  by (simp add: unique_def)

lemma mode_s_empty: "mode_s xs = [] \<longleftrightarrow> (\<forall>v. Some v \<notin> set xs)"
proof (cases "dropna xs = []")
  case True
  then have "set (dropna xs) = {}" by simp
  then have a: "\<forall>v. Some v \<notin> set xs" by (simp add: set_dropna)
  from True have "unique (dropna xs) = []" by (simp add: unique_def)
  then have "mode_s xs = []" by (simp add: mode_s_def Let_def)
  with a show ?thesis by simp
next
  case False
  then have ne: "set (dropna xs) \<noteq> {}" by simp
  then have k: "unique (dropna xs) \<noteq> []" by (metis set_unique set_empty)
  let ?C = "count_list (dropna xs) ` set (dropna xs)"
  have "Max ?C \<in> ?C" using ne by (intro Max_in) auto
  then obtain k where "k \<in> set (dropna xs)" "count_list (dropna xs) k = Max ?C" by auto
  then have "filter (\<lambda>k. count_list (dropna xs) k = Max ?C) (unique (dropna xs)) \<noteq> []"
    by (auto simp: filter_empty_conv)
  then have "mode_s xs \<noteq> []"
    using k by (simp add: mode_s_def Let_def) (metis set_empty set_sort)
  moreover from ne have "\<exists>v. Some v \<in> set xs" by (auto simp: set_dropna)
  ultimately show ?thesis by blast
qed

lemma sorted_hd_le: "sorted l \<Longrightarrow> x \<in> set l \<Longrightarrow> hd l \<le> x"
  by (cases l) auto

lemma mode_s_first:
  assumes "mode_s xs \<noteq> []"
  shows "Some (mode_s xs ! 0) \<in> set xs"
    and "\<And>v. Some v \<in> set xs \<Longrightarrow> count_list (dropna xs) v \<le> count_list (dropna xs) (mode_s xs ! 0)"
    and "\<And>v. Some v \<in> set xs \<Longrightarrow> count_list (dropna xs) v = count_list (dropna xs) (mode_s xs ! 0)
            \<Longrightarrow> mode_s xs ! 0 \<le> v"
proof -
  let ?vals = "dropna xs"
  let ?C = "count_list ?vals ` set ?vals"
  let ?M = "filter (\<lambda>k. count_list ?vals k = Max ?C) (unique ?vals)"
  from assms have k: "unique ?vals \<noteq> []" by (auto simp: mode_s_def Let_def split: if_splits)
  then have ms: "mode_s xs = sort ?M" by (simp add: mode_s_def Let_def)
  have hd: "mode_s xs ! 0 = hd (sort ?M)" using assms ms by (simp add: hd_conv_nth)
  have "hd (sort ?M) \<in> set (sort ?M)" using assms ms by (metis hd_in_set)
  then have inM: "mode_s xs ! 0 \<in> set ?M" using hd by simp
  then show "Some (mode_s xs ! 0) \<in> set xs" by (simp add: set_dropna)
  from inM have cnt: "count_list ?vals (mode_s xs ! 0) = Max ?C" by simp
  { fix v assume "Some v \<in> set xs"
    then have "count_list ?vals v \<in> ?C" by (simp add: set_dropna)
    then have "count_list ?vals v \<le> Max ?C" by (intro Max_ge) auto
    then show "count_list ?vals v \<le> count_list ?vals (mode_s xs ! 0)" using cnt by simp }
  { fix v assume v: "Some v \<in> set xs" and e: "count_list ?vals v = count_list ?vals (mode_s xs ! 0)"
    then have "v \<in> set (sort ?M)" using cnt by (simp add: set_dropna)
    then show "mode_s xs ! 0 \<le> v" using hd sorted_hd_le [of "sort ?M" v] by simp }
qed


lemma fillna_None [simp]: "fillna None xs = xs"
  by (simp add: fillna_def map_idI split: option.splits)

lemma fillna_no_None: "None \<notin> set xs \<Longrightarrow> fillna v xs = xs"
  by (auto simp: fillna_def intro!: map_idI split: option.splits)

lemma length_fillna [simp]: "length (fillna v xs) = length xs"
  by (simp add: fillna_def)

lemma fadd_zero [simp]: "fadd a (Fin 0) = Some a"
  by (cases a) simp_all







lemma isna_any_simps [simp]:
  "isna_any (Int64Col is) = False"
  "isna_any (BoolCol bs) = False"
  "isna_any (Float64Col fs) = (None \<in> set fs)"
  "isna_any (ObjectCol ss) = (None \<in> set ss)"
  "isna_any (DatetimeCol ts) = (None \<in> set ts)"
  by (auto simp: isna_any_def)

lemma notna_any_simps [simp]:
  "notna_any (Int64Col is) = (is \<noteq> [])"
  "notna_any (BoolCol bs) = (bs \<noteq> [])"
  "notna_any (Float64Col fs) = (\<exists>v. Some v \<in> set fs)"
  "notna_any (ObjectCol ss) = (\<exists>v. Some v \<in> set ss)"
  "notna_any (DatetimeCol ts) = (\<exists>v. Some v \<in> set ts)"
proof -
  show "notna_any (Int64Col is) = (is \<noteq> [])" by (cases "is") (auto simp: notna_any_def)
  show "notna_any (BoolCol bs) = (bs \<noteq> [])" by (cases bs) (auto simp: notna_any_def)
qed (auto simp: notna_any_def image_iff)

lemma impute_nth:
  assumes "distinct (map fst (columns t))" "i < length (columns t)"
  shows "columns (impute t) ! i = (fst (columns t ! i), impute_column (snd (columns t ! i)))"
  using assms by (simp add: impute_columns)




section \<open>Imputation: claims C1, C2 and C3\<close>






text \<open>
  C3, as amended. In a table with unique column names, a non-numeric column with a missing
  and a present cell is an object or a datetime column, and imputation replaces every
  missing cell by the mode of the present values and keeps every present cell; when
  several values are most frequent, the value chosen is the least of them in sorted order.
\<close>

theorem impute_mode:
  assumes "distinct (map fst (columns t))" and "i < length (columns t)"
  shows "(\<forall>xs. snd (columns t ! i) = ObjectCol xs \<and> None \<in> set xs \<and> (\<exists>v. Some v \<in> set xs) \<longrightarrow>
            (\<exists>m. least_mode m xs \<and> snd (columns (impute t) ! i)
                = ObjectCol (map (\<lambda>x. case x of None \<Rightarrow> Some m | Some y \<Rightarrow> Some y) xs)))
       \<and> (\<forall>xs. snd (columns t ! i) = DatetimeCol xs \<and> None \<in> set xs \<and> (\<exists>v. Some v \<in> set xs) \<longrightarrow>
            (\<exists>m. least_mode m xs \<and> snd (columns (impute t) ! i)
                = DatetimeCol (map (\<lambda>x. case x of None \<Rightarrow> Some m | Some y \<Rightarrow> Some y) xs)))"
proof (intro conjI allI impI)
  fix xs assume a: "snd (columns t ! i) = ObjectCol xs \<and> None \<in> set xs \<and> (\<exists>v. Some v \<in> set xs)"
  then have ne: "mode_s xs \<noteq> []" by (simp add: mode_s_empty)
  have lm: "least_mode (mode_s xs ! 0) xs"
    unfolding least_mode_def using mode_s_first [OF ne] by blast
  have "snd (columns (impute t) ! i) = impute_column (ObjectCol xs)"
    using impute_nth [OF assms] a by simp
  also have "\<dots> = ObjectCol (map (\<lambda>x. case x of None \<Rightarrow> Some (mode_s xs ! 0) | Some y \<Rightarrow> Some y) xs)"
    using a ne by (simp add: impute_column_def fill_categorical_def fillna_def)
  finally show "\<exists>m. least_mode m xs \<and> snd (columns (impute t) ! i)
                = ObjectCol (map (\<lambda>x. case x of None \<Rightarrow> Some m | Some y \<Rightarrow> Some y) xs)"
    using lm by blast
next
  fix xs assume a: "snd (columns t ! i) = DatetimeCol xs \<and> None \<in> set xs \<and> (\<exists>v. Some v \<in> set xs)"
  then have ne: "mode_s xs \<noteq> []" by (simp add: mode_s_empty)
  have lm: "least_mode (mode_s xs ! 0) xs"
    unfolding least_mode_def using mode_s_first [OF ne] by blast
  have "snd (columns (impute t) ! i) = impute_column (DatetimeCol xs)"
    using impute_nth [OF assms] a by simp
  also have "\<dots> = DatetimeCol (map (\<lambda>x. case x of None \<Rightarrow> Some (mode_s xs ! 0) | Some y \<Rightarrow> Some y) xs)"
    using a ne by (simp add: impute_column_def fill_categorical_def fillna_def)
  finally show "\<exists>m. least_mode m xs \<and> snd (columns (impute t) ! i)
                = DatetimeCol (map (\<lambda>x. case x of None \<Rightarrow> Some m | Some y \<Rightarrow> Some y) xs)"
    using lm by blast
qed

text \<open>
  The theorem at the specification's example \<open>[A, missing, B, A]\<close>: the mode is \<open>A\<close>, and
  the column becomes \<open>[A, A, B, A]\<close>.
\<close>

theorem impute_mode_witness:
  "distinct (map fst (columns ex_mode)) \<and> 0 < length (columns ex_mode)
   \<and> snd (columns ex_mode ! 0) = ObjectCol [Some ''A'', None, Some ''B'', Some ''A'']
   \<and> least_mode ''A'' [Some ''A'', None, Some ''B'', Some ''A'']
   \<and> snd (columns (impute ex_mode) ! 0) = ObjectCol [Some ''A'', Some ''A'', Some ''B'', Some ''A'']"
proof -
  let ?xs = "[Some ''A'', None, Some ''B'', Some ''A'']"
  have d: "distinct (map fst (columns ex_mode))" and l: "0 < length (columns ex_mode)"
    and c: "snd (columns ex_mode ! 0) = ObjectCol ?xs"
    by (simp_all add: ex_mode_def)
  have p: "None \<in> set ?xs \<and> (\<exists>v. Some v \<in> set ?xs)" by auto
  from impute_mode [OF d l] c p obtain m where m: "least_mode m ?xs"
    and r: "snd (columns (impute ex_mode) ! 0)
              = ObjectCol (map (\<lambda>x. case x of None \<Rightarrow> Some m | Some y \<Rightarrow> Some y) ?xs)"
    by blast
  have dr: "dropna ?xs = [''A'', ''B'', ''A'']" by (simp add: dropna_def)
  from m have mem: "Some m \<in> set ?xs"
    and mx: "count_list (dropna ?xs) ''A'' \<le> count_list (dropna ?xs) m"
    by (simp_all add: least_mode_def)
  from mem have "m = ''A'' \<or> m = ''B''" by auto
  moreover have "m \<noteq> ''B''" using mx unfolding dr by auto
  ultimately have e: "m = ''A''" by blast
  from r have "snd (columns (impute ex_mode) ! 0)
      = ObjectCol [Some ''A'', Some ''A'', Some ''B'', Some ''A'']"
    unfolding e by simp
  with m d l c show ?thesis unfolding e by blast
qed

text \<open>
  C3 as written fails at \<open>ex_tie\<close>: in \<open>[b, missing, a]\<close> both values occur once, the
  first one seen is \<open>b\<close>, and imputation fills the missing cell with \<open>a\<close>.
\<close>

theorem impute_mode_first_seen_counterexample:
  "first_seen_mode [Some ''b'', None, Some ''a''] = Some ''b''
   \<and> snd (columns ex_tie ! 0) = ObjectCol [Some ''b'', None, Some ''a'']
   \<and> snd (columns (impute ex_tie) ! 0) = ObjectCol [Some ''b'', Some ''a'', Some ''a'']"
  by (simp add: ex_tie_def impute_def numeric_cols_def categorical_cols_def update_col_def
      fill_categorical_def fillna_def mode_s_def first_seen_mode_def dropna_def unique_def Let_def)

section \<open>Lemmas on duplicate rows\<close>

lemma filter_nth_positions:
  "filter P zs = map (nth zs) (filter (\<lambda>i. P (zs ! i)) [0..<length zs])"
proof (induction zs rule: rev_induct)
  case Nil
  show ?case by simp
next
  case (snoc z zs)
  have a: "filter (\<lambda>i. P ((zs @ [z]) ! i)) [0..<length zs] = filter (\<lambda>i. P (zs ! i)) [0..<length zs]"
    by (rule filter_cong) (simp_all add: nth_append)
  have b: "map (nth (zs @ [z])) (filter (\<lambda>i. P (zs ! i)) [0..<length zs])
         = map (nth zs) (filter (\<lambda>i. P (zs ! i)) [0..<length zs])"
    by (rule map_cong) (simp_all add: nth_append)
  show ?case using snoc by (simp add: a b)
qed

lemma drop_marked_positions:
  assumes "length m = length xs"
  shows "drop_marked m xs = map (nth xs) (filter (\<lambda>i. \<not> m ! i) [0..<length xs])"
proof -
  let ?zs = "zip m xs"
  have l: "length ?zs = length xs" using assms by simp
  have a: "filter (\<lambda>i. \<not> fst (?zs ! i)) [0..<length xs] = filter (\<lambda>i. \<not> m ! i) [0..<length xs]"
    by (rule filter_cong) (simp_all add: assms)
  have "drop_marked m xs = map snd (map (nth ?zs) (filter (\<lambda>i. \<not> fst (?zs ! i)) [0..<length ?zs]))"
    unfolding drop_marked_def by (subst filter_nth_positions) simp
  also have "\<dots> = map (\<lambda>i. snd (?zs ! i)) (filter (\<lambda>i. \<not> m ! i) [0..<length xs])"
    unfolding l a by (simp add: comp_def)
  also have "\<dots> = map (nth xs) (filter (\<lambda>i. \<not> m ! i) [0..<length xs])"
    by (rule map_cong) (simp_all add: assms)
  finally show ?thesis .
qed

lemma length_duplicated_loop [simp]: "length (duplicated_loop seen rs) = length rs"
  by (induction rs arbitrary: seen) simp_all

lemma duplicated_loop_nth:
  "i < length rs \<Longrightarrow> duplicated_loop seen rs ! i = (rs ! i \<in> set seen \<union> set (take i rs))"
proof (induction rs arbitrary: seen i)
  case Nil
  then show ?case by simp
next
  case (Cons r rs)
  show ?case
  proof (cases i)
    case 0
    then show ?thesis by simp
  next
    case (Suc j)
    with Cons.prems have "j < length rs" by simp
    from Cons.IH [OF this, of "r # seen"] Suc show ?thesis by auto
  qed
qed

lemma drop_marked_duplicated:
  assumes "length xs = length rs"
  shows "drop_marked (duplicated_loop [] rs) xs = map (nth xs) (kept_positions rs)"
proof -
  have "filter (\<lambda>i. \<not> duplicated_loop [] rs ! i) [0..<length xs]
      = filter (\<lambda>i. rs ! i \<notin> set (take i rs)) [0..<length rs]"
    unfolding assms by (rule filter_cong) (simp_all add: duplicated_loop_nth)
  then show ?thesis
    using drop_marked_positions [of "duplicated_loop [] rs" xs] assms
    by (simp add: kept_positions_def)
qed

lemma kept_positions_bound: "i \<in> set (kept_positions rs) \<Longrightarrow> i < length rs"
  by (simp add: kept_positions_def)

lemma kept_positions_distinct_rows: "distinct (map (nth rs) (kept_positions rs))"
proof -
  have "inj_on (nth rs) (set (kept_positions rs))"
  proof (rule inj_onI)
    fix i j assume i: "i \<in> set (kept_positions rs)" and j: "j \<in> set (kept_positions rs)"
      and e: "rs ! i = rs ! j"
    have less: "\<And>a b. a \<in> set (kept_positions rs) \<Longrightarrow> b \<in> set (kept_positions rs)
              \<Longrightarrow> rs ! a = rs ! b \<Longrightarrow> a < b \<Longrightarrow> False"
    proof -
      fix a b assume a: "a \<in> set (kept_positions rs)" and b: "b \<in> set (kept_positions rs)"
        and ab: "rs ! a = rs ! b" and lt: "a < b"
      from b have bl: "b < length rs" and nb: "rs ! b \<notin> set (take b rs)"
        by (simp_all add: kept_positions_def)
      have "take b rs ! a = rs ! a" using lt by simp
      moreover have "a < length (take b rs)" using lt bl by simp
      ultimately have "rs ! a \<in> set (take b rs)" by (metis nth_mem)
      with ab nb show False by simp
    qed
    show "i = j"
      using less [OF i j e] less [OF j i e [symmetric]] by (cases i j rule: linorder_cases) auto
  qed
  moreover have "distinct (kept_positions rs)" by (simp add: kept_positions_def)
  ultimately show ?thesis by (simp add: distinct_map)
qed

lemma kept_positions_set_rows: "set (map (nth rs) (kept_positions rs)) = set rs"
proof
  show "set (map (nth rs) (kept_positions rs)) \<subseteq> set rs"
    by (auto simp: kept_positions_def)
next
  show "set rs \<subseteq> set (map (nth rs) (kept_positions rs))"
  proof
    fix x assume "x \<in> set rs"
    then have ex: "\<exists>i. i < length rs \<and> rs ! i = x" by (simp add: in_set_conv_nth)
    define k where "k = (LEAST i. i < length rs \<and> rs ! i = x)"
    have k: "k < length rs \<and> rs ! k = x" unfolding k_def using ex by (rule LeastI_ex)
    have least: "\<And>j. j < length rs \<Longrightarrow> rs ! j = x \<Longrightarrow> k \<le> j"
      unfolding k_def by (rule Least_le) simp
    have "x \<notin> set (take k rs)"
    proof
      assume "x \<in> set (take k rs)"
      then obtain j where "j < length (take k rs)" "take k rs ! j = x"
        by (auto simp: in_set_conv_nth)
      then have "j < k" "j < length rs" "rs ! j = x" by simp_all
      with least [of j] show False by simp
    qed
    with k have "k \<in> set (kept_positions rs)" by (simp add: kept_positions_def)
    with k show "x \<in> set (map (nth rs) (kept_positions rs))" by force
  qed
qed

lemma cells_drop_marked_col: "cells (drop_marked_col m c) = drop_marked m (cells c)"
  by (cases c) (simp_all add: drop_marked_def filter_map comp_def zip_map2 case_prod_unfold)

lemma length_rows [simp]: "length (rows t) = length (index t)"
  by (simp add: rows_def)

lemma rows_nth: "i < length (index t) \<Longrightarrow> rows t ! i = row_at t i"
  by (simp add: rows_def)

lemma wf_table_col_len:
  "wf_table t \<Longrightarrow> nc \<in> set (columns t) \<Longrightarrow> length (cells (snd nc)) = length (index t)"
  by (simp add: wf_table_def list_all_iff col_len_def)

lemma index_reset_index [simp]: "index (reset_index t) = map int [0..<length (index t)]"
  by (simp add: reset_index_def)

lemma columns_reset_index [simp]: "columns (reset_index t) = columns t"
  by (simp add: reset_index_def)

lemma drop_duplicates_nonempty:
  assumes "wf_table t" "\<not> empty_df t"
  shows "index (drop_duplicates t) = map (nth (index t)) (kept_positions (rows t))"
    and "columns (drop_duplicates t)
           = map (\<lambda>nc. (fst nc, drop_marked_col (duplicated t) (snd nc))) (columns t)"
    and "\<And>nc. nc \<in> set (columns t) \<Longrightarrow>
           cells (drop_marked_col (duplicated t) (snd nc))
             = map (nth (cells (snd nc))) (kept_positions (rows t))"
proof -
  show "index (drop_duplicates t) = map (nth (index t)) (kept_positions (rows t))"
    using assms(2) by (simp add: drop_duplicates_def Let_def duplicated_def drop_marked_duplicated)
  show "columns (drop_duplicates t)
           = map (\<lambda>nc. (fst nc, drop_marked_col (duplicated t) (snd nc))) (columns t)"
    using assms(2) by (simp add: drop_duplicates_def Let_def)
  fix nc assume "nc \<in> set (columns t)"
  then have "length (cells (snd nc)) = length (rows t)"
    using wf_table_col_len [OF assms(1)] by simp
  then show "cells (drop_marked_col (duplicated t) (snd nc))
             = map (nth (cells (snd nc))) (kept_positions (rows t))"
    by (simp add: cells_drop_marked_col duplicated_def drop_marked_duplicated)
qed

lemma rows_drop_duplicates:
  assumes wf: "wf_table t" and ne: "columns t \<noteq> []"
  shows "rows (reset_index (drop_duplicates t)) = map (nth (rows t)) (kept_positions (rows t))"
proof (cases "index t = []")
  case True
  then have "drop_duplicates t = t" by (simp add: drop_duplicates_def empty_df_def)
  with True show ?thesis by (simp add: rows_def kept_positions_def)
next
  case False
  with ne have nemp: "\<not> empty_df t" by (simp add: empty_df_def)
  let ?K = "kept_positions (rows t)"
  let ?r = "reset_index (drop_duplicates t)"
  note dd = drop_duplicates_nonempty [OF wf nemp]
  have len: "length (index ?r) = length ?K" by (simp add: dd(1))
  have row: "row_at ?r j = rows t ! (?K ! j)" if j: "j < length ?K" for j
  proof -
    have kb: "?K ! j < length (index t)"
      using kept_positions_bound [of "?K ! j" "rows t"] j by simp
    have "row_at ?r j = map (\<lambda>nc. cells (drop_marked_col (duplicated t) (snd nc)) ! j) (columns t)"
      by (simp add: row_at_def dd(2) comp_def)
    also have "\<dots> = map (\<lambda>nc. cells (snd nc) ! (?K ! j)) (columns t)"
      by (rule map_cong [OF refl]) (simp add: dd(3) j)
    also have "\<dots> = rows t ! (?K ! j)"
      using kb by (simp add: rows_nth row_at_def)
    finally show ?thesis .
  qed
  have "rows ?r = map (row_at ?r) [0..<length ?K]"
    unfolding rows_def len ..
  also have "\<dots> = map (\<lambda>j. rows t ! (?K ! j)) [0..<length ?K]"
    by (rule map_cong [OF refl]) (simp add: row)
  also have "\<dots> = map (nth (rows t)) (map (nth ?K) [0..<length ?K])"
    by (simp add: comp_def)
  also have "\<dots> = map (nth (rows t)) ?K"
    by (simp only: map_nth)
  finally show ?thesis .
qed

lemma wf_table_drop_duplicates:
  assumes wf: "wf_table t"
  shows "wf_table (reset_index (drop_duplicates t))"
proof (cases "empty_df t")
  case True
  then show ?thesis using wf
    by (simp add: drop_duplicates_def wf_table_def reset_index_def)
next
  case False
  note dd = drop_duplicates_nonempty [OF wf False]
  have "list_all (\<lambda>nc. col_len (snd nc) = length (kept_positions (rows t)))
          (map (\<lambda>nc. (fst nc, drop_marked_col (duplicated t) (snd nc))) (columns t))"
    by (simp add: list_all_iff col_len_def dd(3))
  moreover have "distinct (map fst (columns t))" using wf by (simp add: wf_table_def)
  ultimately show ?thesis
    by (simp add: wf_table_def dd(1,2) comp_def)
qed

lemma names_drop_duplicates:
  "map fst (columns (reset_index (drop_duplicates t))) = map fst (columns t)"
  by (simp add: drop_duplicates_def Let_def comp_def)

lemma upt3: "[0..<3] = [0, 1, 2]" by (simp add: upt_rec)

section \<open>Duplicate rows: claim C4\<close>

text \<open>
  C4, as amended. On a well-formed table, \<^verbatim>\<open>drop_duplicates().reset_index(drop=True)\<close>
  keeps the column names and gives a well-formed table whose index is \<open>0, 1, ...\<close>. If
  the table has at least one column, the rows of the result are the rows of the input at
  the positions of the first occurrences, in increasing order of position: every distinct
  row is kept once, at its first occurrence, later equal rows (missing cells equal to
  missing cells) are dropped, and the order is unchanged. A table without columns keeps
  all its rows.
\<close>

theorem drop_duplicates_keeps_first:
  assumes "wf_table t"
  shows "wf_table (reset_index (drop_duplicates t))
    \<and> map fst (columns (reset_index (drop_duplicates t))) = map fst (columns t)
    \<and> index (reset_index (drop_duplicates t))
        = map int [0..<length (rows (reset_index (drop_duplicates t)))]
    \<and> (columns t \<noteq> [] \<longrightarrow>
          rows (reset_index (drop_duplicates t)) = map (nth (rows t)) (kept_positions (rows t))
        \<and> distinct (rows (reset_index (drop_duplicates t)))
        \<and> set (rows (reset_index (drop_duplicates t))) = set (rows t))
    \<and> (columns t = [] \<longrightarrow> rows (reset_index (drop_duplicates t)) = rows t)"
proof (intro conjI impI)
  show "wf_table (reset_index (drop_duplicates t))"
    by (rule wf_table_drop_duplicates [OF assms])
  show "map fst (columns (reset_index (drop_duplicates t))) = map fst (columns t)"
    by (rule names_drop_duplicates)
  show "index (reset_index (drop_duplicates t))
        = map int [0..<length (rows (reset_index (drop_duplicates t)))]"
    by simp
next
  assume ne: "columns t \<noteq> []"
  show r: "rows (reset_index (drop_duplicates t)) = map (nth (rows t)) (kept_positions (rows t))"
    by (rule rows_drop_duplicates [OF assms ne])
  show "distinct (rows (reset_index (drop_duplicates t)))"
    unfolding r by (rule kept_positions_distinct_rows)
  show "set (rows (reset_index (drop_duplicates t))) = set (rows t)"
    unfolding r by (rule kept_positions_set_rows)
next
  assume "columns t = []"
  then show "rows (reset_index (drop_duplicates t)) = rows t"
    by (simp add: drop_duplicates_def empty_df_def rows_def row_at_def)
qed

text \<open>
  The theorem at the specification's example: the rows \<open>(1, x), (2, y), (1, x)\<close> with
  index labels \<open>10, 11, 12\<close> become \<open>(1, x), (2, y)\<close> with index \<open>0, 1\<close>.
\<close>

theorem drop_duplicates_keeps_first_witness:
  "wf_table ex_dups \<and> columns ex_dups \<noteq> []
   \<and> rows ex_dups = [[IntV 1, StrV ''x''], [IntV 2, StrV ''y''], [IntV 1, StrV ''x'']]
   \<and> rows (reset_index (drop_duplicates ex_dups)) = [[IntV 1, StrV ''x''], [IntV 2, StrV ''y'']]
   \<and> index (reset_index (drop_duplicates ex_dups)) = [0, 1]"
proof -
  have wf: "wf_table ex_dups" by (simp add: ex_dups_def wf_table_def col_len_def)
  have ne: "columns ex_dups \<noteq> []" by (simp add: ex_dups_def)
  have rs: "rows ex_dups = [[IntV 1, StrV ''x''], [IntV 2, StrV ''y''], [IntV 1, StrV ''x'']]"
    by (simp add: ex_dups_def rows_def row_at_def upt3)
  have k: "kept_positions (rows ex_dups) = [0, 1]"
    unfolding rs by (simp add: kept_positions_def upt3)
  from drop_duplicates_keeps_first [OF wf] ne
  have r: "rows (reset_index (drop_duplicates ex_dups))
             = map (nth (rows ex_dups)) (kept_positions (rows ex_dups))"
    and i: "index (reset_index (drop_duplicates ex_dups))
        = map int [0..<length (rows (reset_index (drop_duplicates ex_dups)))]"
    by blast+
  have r': "rows (reset_index (drop_duplicates ex_dups)) = [[IntV 1, StrV ''x''], [IntV 2, StrV ''y'']]"
    unfolding r k by (simp add: rs)
  have "index (reset_index (drop_duplicates ex_dups)) = [0, 1]"
    unfolding i r' by (simp add: upt_rec)
  with wf ne rs r' show ?thesis by blast
qed

text \<open>
  C4 as written fails at \<open>ex_nocols\<close>, a frame with two rows and no column: its two rows
  are equal, and both are kept, since \<^verbatim>\<open>drop_duplicates\<close> returns an empty frame as
  it is.
\<close>

theorem drop_duplicates_no_columns_counterexample:
  "wf_table ex_nocols \<and> rows ex_nocols = [[], []]
   \<and> rows (reset_index (drop_duplicates ex_nocols)) = [[], []]"
  by (simp add: ex_nocols_def wf_table_def rows_def row_at_def drop_duplicates_def empty_df_def
      reset_index_def)

section \<open>Lemmas on dtype coercion\<close>

lemma parses_all_simps [simp]:
  "parses_all p [] = True"
  "parses_all p (None # xs) = parses_all p xs"
  "parses_all p (Some s # xs) = (p s \<noteq> None \<and> parses_all p xs)"
  by (simp_all add: parses_all_def)

lemma all_integers_simps [simp]:
  "all_integers p [] = True"
  "all_integers p (None # xs) = False"
  "all_integers p (Some s # xs) = ((\<exists>i. p s = Some (PInt i)) \<and> all_integers p xs)"
  by (auto simp: all_integers_def split: option.splits parsed.splits)

lemma maybe_convert_numeric_fails:
  "\<not> parses_all p xs \<Longrightarrow> maybe_convert_numeric p xs = Inl ValueError"
proof (induction xs)
  case Nil
  then show ?case by simp
next
  case (Cons x xs)
  show ?case
  proof (cases x)
    case None
    with Cons show ?thesis by simp
  next
    case (Some s)
    show ?thesis
    proof (cases "p s")
      case None
      with Some show ?thesis by simp
    next
      case (Some q)
      with \<open>x = Some s\<close> Cons show ?thesis by (cases q) simp_all
    qed
  qed
qed

lemma maybe_convert_numeric_succeeds:
  "parses_all p xs \<Longrightarrow>
   maybe_convert_numeric p xs
     = Inr (\<not> all_integers p xs, map (integer_cell p) xs, map (float_cell p) xs)"
proof (induction xs)
  case Nil
  show ?case by simp
next
  case (Cons x xs)
  show ?case
  proof (cases x)
    case None
    with Cons show ?thesis by (simp add: integer_cell_def float_cell_def)
  next
    case (Some s)
    with Cons.prems obtain q where q: "p s = Some q" and pa: "parses_all p xs" by auto
    from Some q Cons.IH [OF pa] show ?thesis
      by (cases q) (simp_all add: integer_cell_def float_cell_def)
  qed
qed

lemma to_numeric_cases:
  "to_numeric p xs =
     (if parses_all p xs
      then (if all_integers p xs then Int64Col (map (integer_cell p) xs)
            else Float64Col (map (float_cell p) xs))
      else ObjectCol xs)"
  by (simp add: to_numeric_def maybe_convert_numeric_fails maybe_convert_numeric_succeeds)

lemma coerce_dtypes_columns:
  assumes "distinct (map fst (columns t))"
  shows "coerce_dtypes pn pdt t
           = t\<lparr>columns := map (\<lambda>nc. (fst nc, coerce_column pn pdt (snd nc))) (columns t)\<rparr>"
proof -
  have "map (\<lambda>nc. if fst nc \<in> set (map fst (columns t))
                    then (fst nc, coerce_column pn pdt (snd nc)) else nc) (columns t)
      = map (\<lambda>nc. (fst nc, coerce_column pn pdt (snd nc))) (columns t)"
    by (rule map_cong [OF refl]) simp
  then show ?thesis
    unfolding coerce_dtypes_def using fold_update_col [OF assms, of "coerce_column pn pdt" t]
    by simp
qed

lemma coerce_dtypes_nth:
  assumes "distinct (map fst (columns t))" "i < length (columns t)"
  shows "columns (coerce_dtypes pn pdt t) ! i
           = (fst (columns t ! i), coerce_column pn pdt (snd (columns t ! i)))"
  using assms by (simp add: coerce_dtypes_columns)

lemma coerce_column_object:
  "coerce_column pn pdt (ObjectCol xs) =
     (if parses_all pn xs then to_numeric pn xs
      else (case pdt xs of Naive ts \<Rightarrow> DatetimeCol ts | _ \<Rightarrow> ObjectCol xs))"
  by (simp add: coerce_column_def to_numeric_cases Let_def split: dt_result.splits)

lemmas parser_defs = decimal_literal_def unsigned_literal_def natural_def digit_of_def
  to_datetime_iso_def iso_cell_def iso_date_def iso_time_def year_in_range_def epoch_ns_def
  days_from_civil_def
  dropna_def

lemma decimal_literal_examples:
  "decimal_literal ''1'' = Some (PInt 1)"
  "decimal_literal ''2'' = Some (PInt 2)"
  "decimal_literal ''3'' = Some (PInt 3)"
  "decimal_literal ''1.0'' = Some (PFloat (Some (Fin 1)))"
  "decimal_literal ''abc'' = None"
  "decimal_literal ''2020'' = Some (PInt 2020)"
  "decimal_literal ''2021'' = Some (PInt 2021)"
  "decimal_literal ''2022'' = Some (PInt 2022)"
  "decimal_literal ''2020-01-01T00:00:00Z'' = None"
  "decimal_literal ''2021-06-15T12:30:00Z'' = None"
  by (simp_all add: parser_defs)

lemma to_datetime_iso_examples:
  "to_datetime_iso [Some ''1'', Some ''2'', Some ''abc''] = ObjectResult"
  "to_datetime_iso [Some ''2020'', Some ''2021'', Some ''2022'']
     = Naive [Some 1577836800000000000, Some 1609459200000000000, Some 1640995200000000000]"
  "to_datetime_iso [Some ''2020-01-01T00:00:00Z'', Some ''2021-06-15T12:30:00Z'']
     = Aware ''UTC'' [Some 1577836800000000000, Some 1623760200000000000]"
  by (simp_all add: parser_defs)

section \<open>Dtype coercion: claims C5, C6 and C10\<close>





text \<open>
  C10. For an object column of a table with unique column names in which some present
  cell does not parse as a number: if \<^verbatim>\<open>to_datetime\<close> returns a timezone-aware
  column, the result is discarded and the column stays the object column it was.
\<close>

theorem timezone_aware_rejected:
  assumes "distinct (map fst (columns t))" and "i < length (columns t)"
    and "snd (columns t ! i) = ObjectCol xs" and "\<not> parses_all pn xs"
    and "pdt xs = Aware tz ts"
  shows "snd (columns (coerce_dtypes pn pdt t) ! i) = ObjectCol xs"
  using coerce_dtypes_nth [OF assms(1,2), of pn pdt] assms(3,4,5)
  by (simp add: coerce_column_object)

text \<open>
  The theorem at a column of two UTC timestamps: no cell is a number, the datetime parser
  returns a timezone-aware column, and the column is left as text.
\<close>

theorem timezone_aware_rejected_witness:
  "distinct (map fst (columns ex_utc)) \<and> 0 < length (columns ex_utc)
   \<and> snd (columns ex_utc ! 0)
        = ObjectCol [Some ''2020-01-01T00:00:00Z'', Some ''2021-06-15T12:30:00Z'']
   \<and> \<not> parses_all decimal_literal [Some ''2020-01-01T00:00:00Z'', Some ''2021-06-15T12:30:00Z'']
   \<and> to_datetime_iso [Some ''2020-01-01T00:00:00Z'', Some ''2021-06-15T12:30:00Z'']
        = Aware ''UTC'' [Some 1577836800000000000, Some 1623760200000000000]
   \<and> snd (columns (coerce_dtypes decimal_literal to_datetime_iso ex_utc) ! 0)
        = ObjectCol [Some ''2020-01-01T00:00:00Z'', Some ''2021-06-15T12:30:00Z'']"
proof -
  let ?a = "[Some ''2020-01-01T00:00:00Z'', Some ''2021-06-15T12:30:00Z'']"
  have a: "distinct (map fst (columns ex_utc))" "0 < length (columns ex_utc)"
    "snd (columns ex_utc ! 0) = ObjectCol ?a"
    by (simp_all add: ex_utc_def)
  have pa: "\<not> parses_all decimal_literal ?a"
    by (simp add: decimal_literal_examples)
  from timezone_aware_rejected [where pdt = to_datetime_iso, OF a pa to_datetime_iso_examples(3)] a pa
    to_datetime_iso_examples(3)
  show ?thesis by blast
qed

section \<open>Lemmas on well-formedness and empty tables\<close>

lemma col_len_simps [simp]:
  "col_len (Int64Col is) = length is"
  "col_len (Float64Col fs) = length fs"
  "col_len (BoolCol bs) = length bs"
  "col_len (ObjectCol ss) = length ss"
  "col_len (DatetimeCol ts) = length ts"
  by (simp_all add: col_len_def)

lemma col_len_impute_column [simp]: "col_len (impute_column c) = col_len c"
  by (cases c) (simp_all add: impute_column_def fill_numeric_def fill_categorical_def Let_def)

lemma impute_column_no_missing: "\<not> isna_any c \<Longrightarrow> impute_column c = c"
  by (simp add: impute_column_def fill_numeric_def fill_categorical_def)


lemma col_len_zero_not_missing: "col_len c = 0 \<Longrightarrow> \<not> isna_any c"
  by (cases c) simp_all

lemma impute_empty_df:
  assumes "wf_table t" "empty_df t"
  shows "impute t = t"
proof -
  have d: "distinct (map fst (columns t))" using assms(1) by (simp add: wf_table_def)
  have "map (\<lambda>nc. (fst nc, impute_column (snd nc))) (columns t) = columns t"
  proof (cases "columns t = []")
    case True
    then show ?thesis by simp
  next
    case False
    with assms(2) have i: "index t = []" by (simp add: empty_df_def)
    show ?thesis
    proof (rule map_idI)
      fix nc assume "nc \<in> set (columns t)"
      with assms(1) i have "col_len (snd nc) = 0" by (simp add: wf_table_def list_all_iff)
      then have "impute_column (snd nc) = snd nc"
        by (simp add: impute_column_no_missing col_len_zero_not_missing)
      then show "(fst nc, impute_column (snd nc)) = nc" by simp
    qed
  qed
  then show ?thesis by (simp add: impute_columns [OF d])
qed

lemma coerce_column_empty:
  "col_len c = 0 \<Longrightarrow> coerce_column pn pdt c = (if is_object c then Int64Col [] else c)"
  by (cases c) (simp_all add: coerce_column_def to_numeric_cases)

section \<open>Empty tables: claim C9\<close>

text \<open>
  C9, as amended. For a well-formed empty table (no rows or no columns), whatever the
  two parsers are, \<^verbatim>\<open>clean_data\<close> returns a table (the model has no failing branch:
  the only exception, the \<^verbatim>\<open>ValueError\<close> of the numeric parse, is absorbed by
  \<^verbatim>\<open>errors="ignore"\<close>); the result is empty, has the same column names and as many
  rows, indexed from zero; imputation and duplicate removal change nothing; coercion
  leaves every column as it is except the object columns, which, having no cell, become
  integer columns.
\<close>

theorem clean_data_empty_table:
  assumes "wf_table t" and "empty_df t"
  shows "impute t = t \<and> drop_duplicates t = t
    \<and> empty_df (clean_data pn pdt t)
    \<and> index (clean_data pn pdt t) = map int [0..<length (index t)]
    \<and> map fst (columns (clean_data pn pdt t)) = map fst (columns t)
    \<and> (\<forall>i < length (columns t).
          snd (columns (clean_data pn pdt t) ! i)
            = (if is_object (snd (columns t ! i)) then Int64Col [] else snd (columns t ! i)))"
proof -
  have d: "distinct (map fst (columns t))" using assms(1) by (simp add: wf_table_def)
  have i: "impute t = t" by (rule impute_empty_df [OF assms])
  have dd: "drop_duplicates t = t" using assms(2) by (simp add: drop_duplicates_def)
  have c: "clean_data pn pdt t = coerce_dtypes pn pdt (reset_index t)"
    by (simp add: clean_data_def i dd)
  have dr: "distinct (map fst (columns (reset_index t)))" using d by simp
  have cols: "columns (clean_data pn pdt t)
      = map (\<lambda>nc. (fst nc, coerce_column pn pdt (snd nc))) (columns t)"
    unfolding c by (simp add: coerce_dtypes_columns [OF dr])
  have idx: "index (clean_data pn pdt t) = map int [0..<length (index t)]"
    unfolding c by (simp add: coerce_dtypes_columns [OF dr])
  have e: "empty_df (clean_data pn pdt t)"
    using assms(2) by (auto simp: empty_df_def cols idx)
  have n: "map fst (columns (clean_data pn pdt t)) = map fst (columns t)"
    by (simp add: cols comp_def)
  have "\<forall>i < length (columns t).
          snd (columns (clean_data pn pdt t) ! i)
            = (if is_object (snd (columns t ! i)) then Int64Col [] else snd (columns t ! i))"
  proof (intro allI impI)
    fix k assume k: "k < length (columns t)"
    then have "columns t \<noteq> []" by auto
    with assms(2) have "index t = []" by (simp add: empty_df_def)
    with assms(1) k have "col_len (snd (columns t ! k)) = 0"
      by (simp add: wf_table_def list_all_length)
    then show "snd (columns (clean_data pn pdt t) ! k)
            = (if is_object (snd (columns t ! k)) then Int64Col [] else snd (columns t ! k))"
      using k by (simp add: cols coerce_column_empty)
  qed
  with i dd e idx n show ?thesis by blast
qed

text \<open>The theorem at \<open>ex_empty_text\<close>, a table with one object column and no rows.\<close>

theorem clean_data_empty_table_witness:
  "wf_table ex_empty_text \<and> empty_df ex_empty_text
   \<and> impute ex_empty_text = ex_empty_text \<and> drop_duplicates ex_empty_text = ex_empty_text
   \<and> map fst (columns (clean_data decimal_literal to_datetime_iso ex_empty_text)) = [''s'']
   \<and> snd (columns (clean_data decimal_literal to_datetime_iso ex_empty_text) ! 0) = Int64Col []"
proof -
  have wf: "wf_table ex_empty_text" and e: "empty_df ex_empty_text"
    by (simp_all add: ex_empty_text_def wf_table_def empty_df_def)
  have c: "columns ex_empty_text = [(''s'', ObjectCol [])]" by (simp add: ex_empty_text_def)
  from clean_data_empty_table [OF wf e, of decimal_literal to_datetime_iso]
  have "impute ex_empty_text = ex_empty_text" "drop_duplicates ex_empty_text = ex_empty_text"
    "map fst (columns (clean_data decimal_literal to_datetime_iso ex_empty_text))
       = map fst (columns ex_empty_text)"
    "\<forall>i < length (columns ex_empty_text).
          snd (columns (clean_data decimal_literal to_datetime_iso ex_empty_text) ! i)
            = (if is_object (snd (columns ex_empty_text ! i)) then Int64Col []
               else snd (columns ex_empty_text ! i))"
    by blast+
  with wf e show ?thesis by (simp add: c)
qed

text \<open>
  C9 as written fails at \<open>ex_empty_text\<close>: coercion is not a no-op there, the object
  column becomes an integer column.
\<close>

theorem clean_data_empty_text_counterexample:
  "empty_df ex_empty_text
   \<and> reset_index (drop_duplicates (impute ex_empty_text)) = ex_empty_text
   \<and> coerce_dtypes decimal_literal to_datetime_iso ex_empty_text
        = \<lparr>index = [], columns = [(''s'', Int64Col [])]\<rparr>
   \<and> clean_data decimal_literal to_datetime_iso ex_empty_text
        = \<lparr>index = [], columns = [(''s'', Int64Col [])]\<rparr>"
  by (simp add: ex_empty_text_def empty_df_def clean_data_def impute_def numeric_cols_def
      categorical_cols_def update_col_def fill_categorical_def drop_duplicates_def
      reset_index_def coerce_dtypes_def coerce_column_def to_numeric_def)

section \<open>Lemmas on cleaning a cleaned table\<close>









lemma index_coerce_dtypes [simp]: "index (coerce_dtypes pn pdt t) = index t"
proof -
  have "\<And>t. index (fold (\<lambda>col. update_col col (coerce_column pn pdt)) ns t) = index t" for ns
    by (induction ns) simp_all
  then show ?thesis by (simp add: coerce_dtypes_def)
qed




















section \<open>Idempotence: claim C7\<close>




section \<open>Lemmas on the store\<close>

lemma untouched_refl [simp]: "untouched n s s"
  by (simp add: untouched_def)

lemma untouched_trans: "untouched n s s1 \<Longrightarrow> untouched n s1 s2 \<Longrightarrow> untouched n s s2"
  by (simp add: untouched_def)

lemma untouched_mono: "untouched n s s' \<Longrightarrow> m \<le> n \<Longrightarrow> untouched m s s'"
  by (simp add: untouched_def)

lemma alloc_arrays_spec:
  "alloc_arrays cs s = (refs, s') \<Longrightarrow>
     frames s' = frames s \<and> fresh s' = fresh s + length cs \<and> map fst refs = map fst cs
     \<and> (\<forall>b<fresh s. arrays s' b = arrays s b)
     \<and> (\<forall>i<length cs. snd (refs ! i) = fresh s + i
                       \<and> arrays s' (fresh s + i) = Some (snd (cs ! i)))"
proof (induction cs arbitrary: s refs s')
  case Nil
  then show ?case by simp
next
  case (Cons nc cs)
  let ?s1 = "s\<lparr>arrays := (arrays s)(fresh s \<mapsto> snd nc), fresh := fresh s + 1\<rparr>"
  obtain refs2 s2 where r: "alloc_arrays cs ?s1 = (refs2, s2)" by (cases "alloc_arrays cs ?s1")
  with Cons.prems have e: "refs = (fst nc, fresh s) # refs2" "s' = s2"
    by (simp_all add: alloc_array_def)
  note ih = Cons.IH [OF r]
  have a: "frames s' = frames s" "fresh s' = fresh s + length (nc # cs)"
    "map fst refs = map fst (nc # cs)"
    using ih e by simp_all
  have b: "\<forall>b<fresh s. arrays s' b = arrays s b" using ih e by simp
  have c: "\<forall>i<length (nc # cs). snd (refs ! i) = fresh s + i
                       \<and> arrays s' (fresh s + i) = Some (snd ((nc # cs) ! i))"
  proof (intro allI impI)
    fix i assume i: "i < length (nc # cs)"
    show "snd (refs ! i) = fresh s + i \<and> arrays s' (fresh s + i) = Some (snd ((nc # cs) ! i))"
    proof (cases i)
      case 0
      have "arrays s2 (fresh s) = arrays ?s1 (fresh s)" using ih by simp
      with 0 e show ?thesis by simp
    next
      case (Suc j)
      with i have "j < length cs" by simp
      with ih have "snd (refs2 ! j) = fresh ?s1 + j \<and> arrays s2 (fresh ?s1 + j) = Some (snd (cs ! j))"
        by blast
      with Suc e show ?thesis by simp
    qed
  qed
  from a b c show ?case by blast
qed

lemma new_frame_owns:
  assumes "new_frame t s = (a, s')" "n \<le> fresh s"
  shows "owns n s' a t" and "untouched (fresh s) s s'" and "fresh s \<le> fresh s'"
proof -
  obtain refs s1 where r: "alloc_arrays (columns t) s = (refs, s1)"
    by (cases "alloc_arrays (columns t) s")
  note sp = alloc_arrays_spec [OF r]
  from assms(1) r have a: "a = fresh s1"
    and s': "s' = s1\<lparr>frames := (frames s1)(fresh s1 \<mapsto> \<lparr>frame_index = index t, frame_cols = refs\<rparr>),
                    fresh := fresh s1 + 1\<rparr>"
    by (auto simp: new_frame_def)
  have f1: "fresh s1 = fresh s + length (columns t)" using sp by simp
  show "fresh s \<le> fresh s'" using s' f1 by simp
  show "untouched (fresh s) s s'"
    unfolding untouched_def using sp s' f1 by simp
  have "\<forall>i<length (columns t).
          n \<le> snd (refs ! i) \<and> snd (refs ! i) < fresh s'
          \<and> arrays s' (snd (refs ! i)) = Some (snd (columns t ! i))"
  proof (intro allI impI)
    fix i assume i: "i < length (columns t)"
    with sp have "snd (refs ! i) = fresh s + i" "arrays s1 (fresh s + i) = Some (snd (columns t ! i))"
      by blast+
    then show "n \<le> snd (refs ! i) \<and> snd (refs ! i) < fresh s'
          \<and> arrays s' (snd (refs ! i)) = Some (snd (columns t ! i))"
      using assms(2) i s' f1 by simp
  qed
  moreover have "frames s' a = Some \<lparr>frame_index = index t, frame_cols = refs\<rparr>"
    using a s' by simp
  moreover have "map fst refs = map fst (columns t)" using sp by simp
  moreover have "n \<le> a" "a < fresh s'" using a s' f1 assms(2) by simp_all
  ultimately show "owns n s' a t" unfolding owns_def by simp
qed

lemma those_map_nth:
  "length xs = length ys \<Longrightarrow> (\<forall>i<length xs. g (xs ! i) = Some (ys ! i))
     \<Longrightarrow> those (map g xs) = Some ys"
proof (induction xs ys rule: list_induct2)
  case Nil
  then show ?case by simp
next
  case (Cons x xs y ys)
  from Cons.prems have "g x = Some y" by auto
  moreover from Cons.prems have "\<forall>i<length xs. g (xs ! i) = Some (ys ! i)" by auto
  ultimately show ?case using Cons.IH by simp
qed

lemma owns_read_table:
  assumes "owns n s a t"
  shows "read_table s a = Some t"
proof -
  from assms obtain f where f: "frames s a = Some f" "frame_index f = index t"
    "map fst (frame_cols f) = map fst (columns t)"
    "\<forall>i<length (columns t). arrays s (snd (frame_cols f ! i)) = Some (snd (columns t ! i))"
    unfolding owns_def by blast
  from f(3) have l: "length (frame_cols f) = length (columns t)" by (rule map_eq_imp_length_eq)
  have "those (map (\<lambda>nr. map_option (\<lambda>c. (fst nr, c)) (arrays s (snd nr))) (frame_cols f))
          = Some (columns t)"
  proof (rule those_map_nth [OF l], intro allI impI)
    fix i assume i: "i < length (frame_cols f)"
    then have "fst (frame_cols f ! i) = fst (columns t ! i)"
      using f(3) l by (metis nth_map)
    with i l f(4) show "map_option (\<lambda>c. (fst (frame_cols f ! i), c)) (arrays s (snd (frame_cols f ! i)))
          = Some (columns t ! i)"
      by simp
  qed
  with f(1,2) show ?thesis by (simp add: read_table_def)
qed

lemma owns_getitem:
  assumes "owns n s a t" "distinct (map fst (columns t))" "i < length (columns t)"
  shows "getitem a (fst (columns t ! i)) s = Some (snd (columns t ! i))"
proof -
  from assms(1) obtain f where f: "frames s a = Some f"
    "map fst (frame_cols f) = map fst (columns t)"
    "\<forall>i<length (columns t). arrays s (snd (frame_cols f ! i)) = Some (snd (columns t ! i))"
    unfolding owns_def by blast
  from f(2) have l: "length (frame_cols f) = length (columns t)" by (rule map_eq_imp_length_eq)
  have n: "fst (frame_cols f ! i) = fst (columns t ! i)"
    using f(2) l assms(3) by (metis nth_map)
  have "frame_cols f ! i \<in> set (frame_cols f)" using assms(3) l by simp
  then have "(fst (columns t ! i), snd (frame_cols f ! i)) \<in> set (frame_cols f)"
    using n by (metis prod.collapse)
  moreover have "distinct (map fst (frame_cols f))" using f(2) assms(2) by simp
  ultimately have "map_of (frame_cols f) (fst (columns t ! i)) = Some (snd (frame_cols f ! i))"
    by simp
  with f(1,3) assms(3) show ?thesis by (simp add: getitem_def)
qed

lemma update_col_at:
  assumes "distinct (map fst (columns t))" "i < length (columns t)"
  shows "update_col (fst (columns t ! i)) g t
           = t\<lparr>columns := map (\<lambda>nc. if fst nc = fst (columns t ! i)
                                    then (fst nc, g (snd (columns t ! i))) else nc) (columns t)\<rparr>"
proof -
  have "map (\<lambda>nc. if fst nc = fst (columns t ! i) then (fst nc, g (snd nc)) else nc) (columns t)
      = map (\<lambda>nc. if fst nc = fst (columns t ! i)
                   then (fst nc, g (snd (columns t ! i))) else nc) (columns t)"
  proof (rule map_cong [OF refl])
    fix nc assume m: "nc \<in> set (columns t)"
    have "fst nc = fst (columns t ! i) \<Longrightarrow> nc = columns t ! i"
      using assms m by (metis eq_key_imp_eq_value nth_mem prod.collapse)
    then show "(if fst nc = fst (columns t ! i) then (fst nc, g (snd nc)) else nc)
        = (if fst nc = fst (columns t ! i) then (fst nc, g (snd (columns t ! i))) else nc)"
      by auto
  qed
  then show ?thesis by (simp add: update_col_def)
qed

lemma update_col_fixed:
  assumes "distinct (map fst (columns t))" "i < length (columns t)"
    and "g (snd (columns t ! i)) = snd (columns t ! i)"
  shows "update_col (fst (columns t ! i)) g t = t"
proof -
  have "map (\<lambda>nc. if fst nc = fst (columns t ! i)
                   then (fst nc, g (snd (columns t ! i))) else nc) (columns t) = columns t"
  proof (rule map_idI)
    fix nc assume m: "nc \<in> set (columns t)"
    have "fst nc = fst (columns t ! i) \<Longrightarrow> nc = columns t ! i"
      using assms(1,2) m by (metis eq_key_imp_eq_value nth_mem prod.collapse)
    then show "(if fst nc = fst (columns t ! i)
                   then (fst nc, g (snd (columns t ! i))) else nc) = nc"
      using assms(3) by auto
  qed
  then show ?thesis by (simp add: update_col_at [OF assms(1,2)])
qed

lemma owns_setitem:
  assumes o: "owns n s a t"
  shows "\<exists>s'. setitem a col v s = Some s'
     \<and> owns n s' a (t\<lparr>columns := map (\<lambda>nc. if fst nc = col then (fst nc, v) else nc) (columns t)\<rparr>)
     \<and> untouched n s s' \<and> fresh s \<le> fresh s'"
proof -
  from o obtain f where f: "n \<le> a" "a < fresh s" "frames s a = Some f"
    "frame_index f = index t" "map fst (frame_cols f) = map fst (columns t)"
    "\<forall>i<length (columns t). n \<le> snd (frame_cols f ! i) \<and> snd (frame_cols f ! i) < fresh s
         \<and> arrays s (snd (frame_cols f ! i)) = Some (snd (columns t ! i))"
    unfolding owns_def by blast
  from f(5) have l: "length (frame_cols f) = length (columns t)" by (rule map_eq_imp_length_eq)
  let ?refs = "map (\<lambda>nr. if fst nr = col then (fst nr, fresh s) else nr) (frame_cols f)"
  let ?cols = "map (\<lambda>nc. if fst nc = col then (fst nc, v) else nc) (columns t)"
  let ?s' = "s\<lparr>arrays := (arrays s)(fresh s \<mapsto> v), fresh := fresh s + 1,
               frames := (frames s)(a \<mapsto> f\<lparr>frame_cols := ?refs\<rparr>)\<rparr>"
  have e: "setitem a col v s = Some ?s'" using f(3) by (simp add: setitem_def alloc_array_def)
  have u: "untouched n s ?s'" using f(1,2) by (simp add: untouched_def)
  have names: "map fst ?refs = map fst ?cols"
  proof -
    have "map fst ?refs = map fst (frame_cols f)" by (simp add: comp_def if_distrib)
    moreover have "map fst ?cols = map fst (columns t)" by (simp add: comp_def if_distrib)
    ultimately show ?thesis using f(5) by simp
  qed
  have cells: "\<forall>i<length ?cols. n \<le> snd (?refs ! i) \<and> snd (?refs ! i) < fresh ?s'
         \<and> arrays ?s' (snd (?refs ! i)) = Some (snd (?cols ! i))"
  proof (intro allI impI)
    fix i assume "i < length ?cols"
    then have i: "i < length (columns t)" by simp
    have nm: "fst (frame_cols f ! i) = fst (columns t ! i)" using f(5) l i by (metis nth_map)
    from f(6) i have old: "n \<le> snd (frame_cols f ! i)" "snd (frame_cols f ! i) < fresh s"
      "arrays s (snd (frame_cols f ! i)) = Some (snd (columns t ! i))" by blast+
    show "n \<le> snd (?refs ! i) \<and> snd (?refs ! i) < fresh ?s'
         \<and> arrays ?s' (snd (?refs ! i)) = Some (snd (?cols ! i))"
      using i l nm old f(1,2) by (cases "fst (columns t ! i) = col") simp_all
  qed
  have "\<exists>f'. frames ?s' a = Some f' \<and> frame_index f' = index (t\<lparr>columns := ?cols\<rparr>)
             \<and> map fst (frame_cols f') = map fst (columns (t\<lparr>columns := ?cols\<rparr>))
             \<and> (\<forall>i<length (columns (t\<lparr>columns := ?cols\<rparr>)).
                   n \<le> snd (frame_cols f' ! i) \<and> snd (frame_cols f' ! i) < fresh ?s'
                   \<and> arrays ?s' (snd (frame_cols f' ! i))
                       = Some (snd (columns (t\<lparr>columns := ?cols\<rparr>) ! i)))"
  proof (rule exI [of _ "f\<lparr>frame_cols := ?refs\<rparr>"], intro conjI)
    show "frames ?s' a = Some (f\<lparr>frame_cols := ?refs\<rparr>)" by simp
    show "frame_index (f\<lparr>frame_cols := ?refs\<rparr>) = index (t\<lparr>columns := ?cols\<rparr>)"
      using f(4) by simp
    show "map fst (frame_cols (f\<lparr>frame_cols := ?refs\<rparr>))
            = map fst (columns (t\<lparr>columns := ?cols\<rparr>))"
      using names by simp
    show "\<forall>i<length (columns (t\<lparr>columns := ?cols\<rparr>)).
                   n \<le> snd (frame_cols (f\<lparr>frame_cols := ?refs\<rparr>) ! i)
                   \<and> snd (frame_cols (f\<lparr>frame_cols := ?refs\<rparr>) ! i) < fresh ?s'
                   \<and> arrays ?s' (snd (frame_cols (f\<lparr>frame_cols := ?refs\<rparr>) ! i))
                       = Some (snd (columns (t\<lparr>columns := ?cols\<rparr>) ! i))"
      using cells by simp
  qed
  moreover have "n \<le> a" "a < fresh ?s'" using f(1,2) by simp_all
  ultimately have "owns n ?s' a (t\<lparr>columns := ?cols\<rparr>)"
    unfolding owns_def by blast
  moreover have "fresh s \<le> fresh ?s'" by simp
  ultimately show ?thesis using e u by blast
qed

lemma owns_assign:
  assumes "owns n s a t" "distinct (map fst (columns t))" "i < length (columns t)"
  shows "\<exists>s'. setitem a (fst (columns t ! i)) (g (snd (columns t ! i))) s = Some s'
     \<and> owns n s' a (update_col (fst (columns t ! i)) g t)
     \<and> untouched n s s' \<and> fresh s \<le> fresh s'"
  using owns_setitem [OF assms(1), of "fst (columns t ! i)" "g (snd (columns t ! i))"]
  by (simp add: update_col_at [OF assms(2,3)])

lemma owns_skip:
  assumes "owns n s a t" "distinct (map fst (columns t))" "i < length (columns t)"
    and "g (snd (columns t ! i)) = snd (columns t ! i)"
  shows "\<exists>s'. Some s = Some s' \<and> owns n s' a (update_col (fst (columns t ! i)) g t)
     \<and> untouched n s s' \<and> fresh s \<le> fresh s'"
  using assms(1) by (simp add: update_col_fixed [where g = g, OF assms(2,3,4)])

lemma name_position:
  assumes "col \<in> set (map fst (columns t))"
  obtains i where "i < length (columns t)" "fst (columns t ! i) = col"
  using assms by (auto simp: in_set_conv_nth)

lemma fill_numeric_st_owns:
  assumes o: "owns n s a t" and d: "distinct (map fst (columns t))"
    and c: "col \<in> set (map fst (columns t))"
  shows "\<exists>s'. fill_numeric_st a col s = Some s' \<and> owns n s' a (update_col col fill_numeric t)
     \<and> untouched n s s' \<and> fresh s \<le> fresh s'"
proof -
  from c obtain i where i: "i < length (columns t)" "fst (columns t ! i) = col"
    by (rule name_position)
  let ?c = "snd (columns t ! i)"
  have g: "getitem a col s = Some ?c" using owns_getitem [OF o d i(1)] i(2) by simp
  show ?thesis
  proof (cases "isna_any ?c")
    case True
    then have "fill_numeric ?c = fillna_mean ?c" by (simp add: fill_numeric_def)
    with owns_assign [OF o d i(1), of fill_numeric] True g i(2) show ?thesis
      by (simp add: fill_numeric_st_def)
  next
    case False
    then have "fill_numeric ?c = ?c" by (simp add: fill_numeric_def)
    from owns_skip [where g = fill_numeric, OF o d i(1) this] False g i(2) show ?thesis
      by (simp add: fill_numeric_st_def)
  qed
qed

lemma fillna_mode_no_mode: "\<not> has_mode c \<Longrightarrow> fillna_mode c = c"
  by (cases c) simp_all

lemma fill_categorical_st_owns:
  assumes o: "owns n s a t" and d: "distinct (map fst (columns t))"
    and c: "col \<in> set (map fst (columns t))"
  shows "\<exists>s'. fill_categorical_st a col s = Some s'
     \<and> owns n s' a (update_col col fill_categorical t)
     \<and> untouched n s s' \<and> fresh s \<le> fresh s'"
proof -
  from c obtain i where i: "i < length (columns t)" "fst (columns t ! i) = col"
    by (rule name_position)
  let ?c = "snd (columns t ! i)"
  have g: "getitem a col s = Some ?c" using owns_getitem [OF o d i(1)] i(2) by simp
  show ?thesis
  proof (cases "isna_any ?c \<and> has_mode ?c")
    case True
    then have "fill_categorical ?c = fillna_mode ?c" by (simp add: fill_categorical_def)
    with owns_assign [OF o d i(1), of fill_categorical] True g i(2) show ?thesis
      by (simp add: fill_categorical_st_def)
  next
    case False
    then have "fill_categorical ?c = ?c"
      by (auto simp: fill_categorical_def fillna_mode_no_mode)
    from owns_skip [where g = fill_categorical, OF o d i(1) this] False g i(2) show ?thesis
      by (auto simp: fill_categorical_st_def)
  qed
qed

lemma coerce_st_owns:
  assumes o: "owns n s a t" and d: "distinct (map fst (columns t))"
    and c: "col \<in> set (map fst (columns t))"
  shows "\<exists>s'. coerce_st pn pdt a col s = Some s'
     \<and> owns n s' a (update_col col (coerce_column pn pdt) t)
     \<and> untouched n s s' \<and> fresh s \<le> fresh s'"
proof -
  from c obtain i where i: "i < length (columns t)" "fst (columns t ! i) = col"
    by (rule name_position)
  let ?c = "snd (columns t ! i)"
  let ?g = "coerce_column pn pdt"
  have g: "getitem a col s = Some ?c" using owns_getitem [OF o d i(1)] i(2) by simp
  note assign = owns_assign [OF o d i(1), of ?g, unfolded i(2)]
  have skip: "?g ?c = ?c \<Longrightarrow> \<exists>s'. Some s = Some s' \<and> owns n s' a (update_col col ?g t)
     \<and> untouched n s s' \<and> fresh s \<le> fresh s'"
    using owns_skip [where g = ?g, OF o d i(1)] i(2) by simp
  show ?thesis
  proof (cases ?c)
    case (ObjectCol xs)
    show ?thesis
    proof (cases "is_object (to_numeric pn xs)")
      case False
      then have "?g ?c = to_numeric pn xs" using ObjectCol by (simp add: coerce_column_def)
      with assign False g ObjectCol show ?thesis by (simp add: coerce_st_def)
    next
      case True
      show ?thesis
      proof (cases "pdt xs")
        case (Naive ts)
        then have "?g ?c = DatetimeCol ts" using ObjectCol True by (simp add: coerce_column_def)
        with assign True g ObjectCol Naive show ?thesis by (simp add: coerce_st_def)
      next
        case (Aware tz ts)
        then have "?g ?c = ?c" using ObjectCol True by (simp add: coerce_column_def)
        from skip [OF this] True g ObjectCol Aware show ?thesis by (simp add: coerce_st_def)
      next
        case ObjectResult
        then have "?g ?c = ?c" using ObjectCol True by (simp add: coerce_column_def)
        from skip [OF this] True g ObjectCol ObjectResult show ?thesis by (simp add: coerce_st_def)
      qed
    qed
  next
    case (Int64Col xs)
    then have "?g ?c = ?c" by (simp add: coerce_column_def)
    from skip [OF this] g Int64Col show ?thesis by (simp add: coerce_st_def)
  next
    case (Float64Col xs)
    then have "?g ?c = ?c" by (simp add: coerce_column_def)
    from skip [OF this] g Float64Col show ?thesis by (simp add: coerce_st_def)
  next
    case (BoolCol xs)
    then have "?g ?c = ?c" by (simp add: coerce_column_def)
    from skip [OF this] g BoolCol show ?thesis by (simp add: coerce_st_def)
  next
    case (DatetimeCol xs)
    then have "?g ?c = ?c" by (simp add: coerce_column_def)
    from skip [OF this] g DatetimeCol show ?thesis by (simp add: coerce_st_def)
  qed
qed

lemma for_each_owns:
  assumes step: "\<And>s t col. owns n s a t \<Longrightarrow> distinct (map fst (columns t))
      \<Longrightarrow> col \<in> set (map fst (columns t))
      \<Longrightarrow> \<exists>s'. body col s = Some s' \<and> owns n s' a (update_col col g t)
             \<and> untouched n s s' \<and> fresh s \<le> fresh s'"
  shows "owns n s a t \<Longrightarrow> distinct (map fst (columns t))
      \<Longrightarrow> set cols \<subseteq> set (map fst (columns t))
      \<Longrightarrow> \<exists>s'. for_each body cols s = Some s'
             \<and> owns n s' a (fold (\<lambda>col. update_col col g) cols t)
             \<and> untouched n s s' \<and> fresh s \<le> fresh s'"
proof (induction cols arbitrary: s t)
  case Nil
  then show ?case by simp
next
  case (Cons col cols)
  from Cons.prems have c: "col \<in> set (map fst (columns t))" by simp
  from step [OF Cons.prems(1,2) c] obtain s1 where s1: "body col s = Some s1"
    "owns n s1 a (update_col col g t)" "untouched n s s1" "fresh s \<le> fresh s1"
    by blast
  have d1: "distinct (map fst (columns (update_col col g t)))" using Cons.prems(2) by simp
  have sub: "set cols \<subseteq> set (map fst (columns (update_col col g t)))"
    using Cons.prems(3) by simp
  from Cons.IH [OF s1(2) d1 sub] obtain s' where s': "for_each body cols s1 = Some s'"
    "owns n s' a (fold (\<lambda>col. update_col col g) cols (update_col col g t))"
    "untouched n s1 s'" "fresh s1 \<le> fresh s'"
    by blast
  from s1 s' have "for_each body (col # cols) s = Some s'" by simp
  moreover have "untouched n s s'" using s1(3) s'(3) by (rule untouched_trans)
  moreover have "fresh s \<le> fresh s'" using s1(4) s'(4) by simp
  ultimately show ?case using s'(2) by simp
qed

lemma untouched_read_table:
  assumes "valid_store s" "untouched (fresh s) s s'"
  shows "read_table s' a = read_table s a \<or> frames s a = None"
proof (cases "frames s a")
  case None
  then show ?thesis by simp
next
  case (Some f)
  with assms(1) have a: "a < fresh s" and r: "list_all (\<lambda>nr. snd nr < fresh s) (frame_cols f)"
    unfolding valid_store_def by blast+
  from a assms(2) Some have f': "frames s' a = Some f" by (simp add: untouched_def)
  have eq: "map (\<lambda>nr. map_option (\<lambda>c. (fst nr, c)) (arrays s' (snd nr))) (frame_cols f)
      = map (\<lambda>nr. map_option (\<lambda>c. (fst nr, c)) (arrays s (snd nr))) (frame_cols f)"
  proof (rule map_cong [OF refl])
    fix nr assume "nr \<in> set (frame_cols f)"
    with r have "snd nr < fresh s" by (simp add: list_all_iff)
    with assms(2) have "arrays s' (snd nr) = arrays s (snd nr)" by (simp add: untouched_def)
    then show "map_option (\<lambda>c. (fst nr, c)) (arrays s' (snd nr))
        = map_option (\<lambda>c. (fst nr, c)) (arrays s (snd nr))" by simp
  qed
  have "read_table s' a = read_table s a"
    unfolding read_table_def Some f' option.case eq ..
  then show ?thesis ..
qed

lemma names_fold_update_col [simp]:
  "map fst (columns (fold (\<lambda>col. update_col col g) cols t)) = map fst (columns t)"
  by (induction cols arbitrary: t) simp_all

lemma names_impute [simp]: "map fst (columns (impute t)) = map fst (columns t)"
  by (simp add: impute_def Let_def)

lemma owns_fresh_refs:
  assumes "owns n s a t"
  shows "n \<le> a" and "\<exists>f. frames s a = Some f \<and> list_all (\<lambda>nr. n \<le> snd nr) (frame_cols f)"
proof -
  from assms obtain f where f: "n \<le> a" "frames s a = Some f"
    "map fst (frame_cols f) = map fst (columns t)"
    "\<forall>i<length (columns t). n \<le> snd (frame_cols f ! i)"
    unfolding owns_def by blast
  show "n \<le> a" by (rule f(1))
  from f(3) have "length (frame_cols f) = length (columns t)" by (rule map_eq_imp_length_eq)
  with f(4) have "list_all (\<lambda>nr. n \<le> snd nr) (frame_cols f)" by (simp add: list_all_length)
  with f(2) show "\<exists>f. frames s a = Some f \<and> list_all (\<lambda>nr. n \<le> snd nr) (frame_cols f)"
    by blast
qed

section \<open>The caller's table: claim C8\<close>

text \<open>
  C8. In a valid store, let the caller's frame at \<open>df\<close> denote a table \<open>t\<close> with unique
  column names. Then \<^verbatim>\<open>clean_data\<close> returns: it yields an address \<open>res\<close> and a store
  \<open>s'\<close> such that the frame at \<open>res\<close> denotes the cleaned table; the frame at \<open>df\<close>
  still denotes \<open>t\<close>; no frame and no buffer that existed before the call has changed;
  and the result frame and all its buffers are new, so the result shares no buffer with
  the input.
\<close>

theorem clean_data_st_frame:
  assumes v: "valid_store s" and r: "read_table s df = Some t"
    and d: "distinct (map fst (columns t))"
  shows "\<exists>res s'. clean_data_st pn pdt df s = Some (res, s')
      \<and> read_table s' res = Some (clean_data pn pdt t)
      \<and> read_table s' df = Some t
      \<and> untouched (fresh s) s s'
      \<and> fresh s \<le> res
      \<and> (\<exists>f. frames s' res = Some f \<and> list_all (\<lambda>nr. fresh s \<le> snd nr) (frame_cols f))"
proof -
  let ?n = "fresh s"
  \<comment> \<open>df.copy()\<close>
  obtain c s1 where nf1: "new_frame t s = (c, s1)" by (cases "new_frame t s")
  have o1: "owns ?n s1 c t" and u1: "untouched ?n s s1" and f1: "?n \<le> fresh s1"
    using new_frame_owns [OF nf1, of ?n] by simp_all
  have r1: "read_table s1 c = Some t" by (rule owns_read_table [OF o1])
  \<comment> \<open>the two imputation loops\<close>
  let ?t2 = "fold (\<lambda>col. update_col col fill_numeric) (numeric_cols t) t"
  have sub2: "set (numeric_cols t) \<subseteq> set (map fst (columns t))"
    by (auto simp: numeric_cols_def)
  from for_each_owns [where body = "fill_numeric_st c" and g = fill_numeric,
      OF fill_numeric_st_owns o1 d sub2]
  obtain s2 where s2: "for_each (fill_numeric_st c) (numeric_cols t) s1 = Some s2"
    "owns ?n s2 c ?t2" "untouched ?n s1 s2" "fresh s1 \<le> fresh s2"
    by blast
  have d2: "distinct (map fst (columns ?t2))" using d by simp
  have sub3: "set (categorical_cols t) \<subseteq> set (map fst (columns ?t2))"
    by (auto simp: categorical_cols_def)
  from for_each_owns [where body = "fill_categorical_st c" and g = fill_categorical,
      OF fill_categorical_st_owns s2(2) d2 sub3]
  obtain s3 where s3: "for_each (fill_categorical_st c) (categorical_cols t) s2 = Some s3"
    "owns ?n s3 c (fold (\<lambda>col. update_col col fill_categorical) (categorical_cols t) ?t2)"
    "untouched ?n s2 s3" "fresh s2 \<le> fresh s3"
    by blast
  have o3: "owns ?n s3 c (impute t)" using s3(2) by (simp add: impute_def Let_def)
  have r3: "read_table s3 c = Some (impute t)" by (rule owns_read_table [OF o3])
  have f3: "?n \<le> fresh s3" using f1 s2(4) s3(4) by simp
  \<comment> \<open>drop_duplicates() and reset_index(drop=True)\<close>
  obtain dd s4 where nf4: "new_frame (drop_duplicates (impute t)) s3 = (dd, s4)"
    by (cases "new_frame (drop_duplicates (impute t)) s3")
  have o4: "owns ?n s4 dd (drop_duplicates (impute t))"
    and u4: "untouched ?n s3 s4" and f4: "?n \<le> fresh s4"
    using new_frame_owns [OF nf4 f3] f3 by (simp_all add: untouched_mono)
  have r4: "read_table s4 dd = Some (drop_duplicates (impute t))"
    by (rule owns_read_table [OF o4])
  let ?u = "reset_index (drop_duplicates (impute t))"
  obtain e s5 where nf5: "new_frame ?u s4 = (e, s5)" by (cases "new_frame ?u s4")
  have o5: "owns ?n s5 e ?u" and u5: "untouched ?n s4 s5"
    using new_frame_owns [OF nf5 f4] f4 by (simp_all add: untouched_mono)
  have r5: "read_table s5 e = Some ?u" by (rule owns_read_table [OF o5])
  \<comment> \<open>the coercion loop\<close>
  have d5: "distinct (map fst (columns ?u))" unfolding names_drop_duplicates using d by simp
  from for_each_owns [where body = "coerce_st pn pdt e" and g = "coerce_column pn pdt",
      OF coerce_st_owns o5 d5 subset_refl]
  obtain s6 where s6: "for_each (coerce_st pn pdt e) (map fst (columns ?u)) s5 = Some s6"
    "owns ?n s6 e (fold (\<lambda>col. update_col col (coerce_column pn pdt)) (map fst (columns ?u)) ?u)"
    "untouched ?n s5 s6"
    by blast
  have o6: "owns ?n s6 e (clean_data pn pdt t)"
    using s6(2) by (simp add: clean_data_def coerce_dtypes_def Let_def)
  have run: "clean_data_st pn pdt df s = Some (e, s6)"
    using s6(1) by (simp add: clean_data_st_def r nf1 r1 s2(1) s3(1) r3 nf4 r4 nf5 r5)
  have u: "untouched ?n s s6"
    using u1 s2(3) s3(3) u4 u5 s6(3) by (blast intro: untouched_trans)
  have "read_table s6 df = Some t"
    using untouched_read_table [OF v u, of df] r by (auto simp: read_table_def)
  moreover have "read_table s6 e = Some (clean_data pn pdt t)" by (rule owns_read_table [OF o6])
  ultimately show ?thesis using run u owns_fresh_refs [OF o6] by blast
qed

text \<open>The theorem at \<open>ex_store\<close>, whose frame at address 2 has a float and an object column.\<close>

theorem clean_data_st_frame_witness:
  "valid_store ex_store
   \<and> read_table ex_store 2
       = Some \<lparr>index = [0, 1, 2],
               columns = [(''x'', Float64Col [Some (Fin 1), None, Some (Fin 3)]),
                          (''s'', ObjectCol [Some ''a'', None, Some ''a''])]\<rparr>
   \<and> (\<exists>res s'. clean_data_st decimal_literal to_datetime_iso 2 ex_store = Some (res, s')
        \<and> read_table s' res
            = Some (clean_data decimal_literal to_datetime_iso
                 \<lparr>index = [0, 1, 2],
                  columns = [(''x'', Float64Col [Some (Fin 1), None, Some (Fin 3)]),
                             (''s'', ObjectCol [Some ''a'', None, Some ''a''])]\<rparr>)
        \<and> read_table s' 2
            = Some \<lparr>index = [0, 1, 2],
                    columns = [(''x'', Float64Col [Some (Fin 1), None, Some (Fin 3)]),
                               (''s'', ObjectCol [Some ''a'', None, Some ''a''])]\<rparr>
        \<and> 3 \<le> res)"
proof -
  let ?t = "\<lparr>index = [0, 1, 2],
             columns = [(''x'', Float64Col [Some (Fin 1), None, Some (Fin 3)]),
                        (''s'', ObjectCol [Some ''a'', None, Some ''a''])]\<rparr>"
  have v: "valid_store ex_store"
    by (auto simp: valid_store_def ex_store_def split: if_splits)
  have r: "read_table ex_store 2 = Some ?t"
    by (simp add: read_table_def ex_store_def)
  have d: "distinct (map fst (columns ?t))" by simp
  have f: "fresh ex_store = 3" by (simp add: ex_store_def)
  from clean_data_st_frame [OF v r d, of decimal_literal to_datetime_iso]
  obtain res s' where "clean_data_st decimal_literal to_datetime_iso 2 ex_store = Some (res, s')"
    "read_table s' res = Some (clean_data decimal_literal to_datetime_iso ?t)"
    "read_table s' 2 = Some ?t" "fresh ex_store \<le> res"
    by blast
  with v r show ?thesis unfolding f by blast
qed

end
